theory Spec2Isabelle
  imports Main "HOL-Library.Char_ord" "HOL-Library.List_Lexorder" "HOL-Library.Multiset"
begin

section \<open>Values of the host language\<close>

text \<open>
  The serializer of \<^verbatim>\<open>packages/core/src/hash.ts\<close> dispatches on the runtime kind of a
  JavaScript value. The kinds it distinguishes are the constructors below.

  \<^item> Strings are sequences of code units; the model keeps the code units below 256
    (\<open>string\<close>), on which the order of \<open>List_Lexorder\<close> over \<open>Char_ord\<close> is the
    code-unit order of the language's \<^verbatim>\<open><\<close> on strings.
  \<^item> A number is \<^verbatim>\<open>NaN\<close>, an infinity or an integer value printed in decimal (what
    the language prints for integers of magnitude below \<open>10^21\<close>); fractions and
    exponent notation are left out.
  \<^item> A symbol has an identity and an optional description.
  \<^item> A function is given by its \<^verbatim>\<open>name\<close>, a date by the result of \<^verbatim>\<open>toISOString\<close>
    (\<open>None\<close> for an invalid time value), a regular expression by the result of its
    \<^verbatim>\<open>toString\<close>, a typed array by the \<^verbatim>\<open>name\<close> of its constructor (\<open>None\<close> when
    absent) and its elements, any other object by its \<^verbatim>\<open>Object.prototype.toString\<close> tag.
  \<^item> Arrays, Maps, Sets and plain objects are the objects the serializer descends into.
    They live in a store and are referred to by address (\<open>Ref\<close>), so that sharing and
    cycles are expressible. The addresses form a finite type: every store is finite and
    every reference points to an object.
\<close>

datatype symbol = Symbol (sym_id: nat) (description: "string option")

datatype jsnum = NaN | PosInfinity | NegInfinity | Finite int

datatype 'a jsval =
    Null
  | Str string
  | Num jsnum
  | Bool bool
  | BigInt int
  | Undefined
  | Sym symbol
  | Function string
  | Date "string option"
  | RegExp string
  | TypedArray "string option" "jsnum list"
  | Ref 'a
  | Exotic string

text \<open>
  An array is the list of its slots, \<open>None\<close> for a hole. A Map is the list of its entries
  and a Set the list of its elements, both in insertion order. A plain object is an
  object that passes \<^verbatim>\<open>isPlainObject\<close>: its \<^verbatim>\<open>Object.prototype.toString\<close> tag is
  \<^verbatim>\<open>[object Object]\<close> and its prototype is \<^verbatim>\<open>null\<close> or \<^verbatim>\<open>Object.prototype\<close>. It is
  given by the list of its own enumerable string-keyed properties (what \<^verbatim>\<open>Object.keys\<close>
  enumerates) and the list of its own symbol-keyed properties (what
  \<^verbatim>\<open>Object.getOwnPropertySymbols\<close> enumerates), both in insertion order; the properties
  are data properties, so that reading one runs no code. Every other object, an object
  literal with a \<^verbatim>\<open>Symbol.toStringTag\<close> of its own included, is \<open>Exotic\<close>.
\<close>

datatype 'a jsobj =
    Array "'a jsval option list"
  | MapObj "('a jsval \<times> 'a jsval) list"
  | SetObj "'a jsval list"
  | PlainObject "(string \<times> 'a jsval) list" "(symbol \<times> 'a jsval) list"

type_synonym 'a heap = "'a \<Rightarrow> 'a jsobj"

text \<open>
  The \<^verbatim>\<open>TypeError\<close> thrown by the source, with its message, and the \<^verbatim>\<open>RangeError\<close> of
  the engine when the call stack is exhausted.
\<close>

datatype error = TypeError string | RangeError

section \<open>Builtins used by the serializer\<close>

text \<open>\<^verbatim>\<open>Array.prototype.join\<close> on an array of strings.\<close>

fun join :: "string \<Rightarrow> string list \<Rightarrow> string" where
  "join sep [] = []"
| "join sep [x] = x"
| "join sep (x # y # ys) = x @ sep @ join sep (y # ys)"

text \<open>Decimal printing of integers, for numbers and big integers.\<close>

definition digit_char :: "nat \<Rightarrow> char" where
  "digit_char d = ''0123456789'' ! d"

fun digits :: "nat \<Rightarrow> string" where
  "digits n = (if n < 10 then [digit_char n] else digits (n div 10) @ [digit_char (n mod 10)])"

declare digits.simps [simp del]

definition int_to_string :: "int \<Rightarrow> string" where
  "int_to_string i = (if i < 0 then CHR ''-'' # digits (nat (- i)) else digits (nat i))"

fun number_to_string :: "jsnum \<Rightarrow> string" where
  "number_to_string NaN = ''NaN''"
| "number_to_string PosInfinity = ''Infinity''"
| "number_to_string NegInfinity = ''-Infinity''"
| "number_to_string (Finite i) = int_to_string i"

fun isNaN :: "jsnum \<Rightarrow> bool" where
  "isNaN NaN = True"
| "isNaN _ = False"

text \<open>
  \<^verbatim>\<open>JSON.stringify\<close> on a string: the string in double quotes, with the quote, the
  backslash and the control characters escaped.
\<close>

definition hex_digit :: "nat \<Rightarrow> char" where
  "hex_digit d = ''0123456789abcdef'' ! d"

definition json_escape :: "char \<Rightarrow> string" where
  "json_escape c =
     (if c = CHR 0x22 then [CHR 0x5C, CHR 0x22]
      else if c = CHR 0x5C then [CHR 0x5C, CHR 0x5C]
      else if c = CHR 0x08 then [CHR 0x5C, CHR ''b'']
      else if c = CHR 0x0C then [CHR 0x5C, CHR ''f'']
      else if c = CHR 0x0A then [CHR 0x5C, CHR ''n'']
      else if c = CHR 0x0D then [CHR 0x5C, CHR ''r'']
      else if c = CHR 0x09 then [CHR 0x5C, CHR ''t'']
      else if (of_char c :: nat) < 32
        then [CHR 0x5C, CHR ''u'', CHR ''0'', CHR ''0'',
              hex_digit ((of_char c :: nat) div 16), hex_digit ((of_char c :: nat) mod 16)]
      else [c])"

definition json_stringify :: "string \<Rightarrow> string" where
  "json_stringify s = CHR 0x22 # concat (map json_escape s) @ [CHR 0x22]"

section \<open>The serializer\<close>

text \<open>\<^verbatim>\<open>a.description ?? ''\<close>, the sort key of a symbol and its printed form.\<close>

definition description_or_empty :: "symbol \<Rightarrow> string" where
  "description_or_empty s = (case description s of None \<Rightarrow> [] | Some d \<Rightarrow> d)"

datatype propkey = StringKey string | SymbolKey symbol

text \<open>
  \<^verbatim>\<open>ownKeysSorted\<close>: the string keys in sorted order, then the symbol keys, sorted by
  description with the language's stable sort.
\<close>

definition ownKeysSorted :: "(string \<times> 'a jsval) list \<Rightarrow> (symbol \<times> 'a jsval) list \<Rightarrow> propkey list" where
  "ownKeysSorted props symprops =
     (let stringKeys = sort (map fst props);
          symbolKeys = sort_key description_or_empty (map fst symprops)
      in map StringKey stringKeys @ map SymbolKey symbolKeys)"

text \<open>Reading a property, \<^verbatim>\<open>value[k]\<close>: an absent key reads as \<^verbatim>\<open>undefined\<close>.\<close>

fun getprop :: "(string \<times> 'a jsval) list \<Rightarrow> (symbol \<times> 'a jsval) list \<Rightarrow> propkey \<Rightarrow> 'a jsval" where
  "getprop props symprops (StringKey k) = (case map_of props k of None \<Rightarrow> Undefined | Some v \<Rightarrow> v)"
| "getprop props symprops (SymbolKey k) = (case map_of symprops k of None \<Rightarrow> Undefined | Some v \<Rightarrow> v)"

fun keyLabel :: "propkey \<Rightarrow> string" where
  "keyLabel (StringKey k) = ''key:'' @ json_stringify k"
| "keyLabel (SymbolKey k) = ''keysym:'' @ description_or_empty k"

text \<open>
  A \<^verbatim>\<open>map\<close> over an array whose callback may throw: the first exception, in element
  order, is the one that propagates.
\<close>

fun sequence :: "(error + 'b) list \<Rightarrow> error + 'b list" where
  "sequence [] = Inr []"
| "sequence (Inl e # rs) = Inl e"
| "sequence (Inr x # rs) = (case sequence rs of Inl e \<Rightarrow> Inl e | Inr xs \<Rightarrow> Inr (x # xs))"

text \<open>An entry of a Map: the key is serialized before the value.\<close>

fun both :: "(error + 'b) \<times> (error + 'c) \<Rightarrow> error + ('b \<times> 'c)" where
  "both (Inl e, _) = Inl e"
| "both (Inr x, Inl e) = Inl e"
| "both (Inr x, Inr y) = Inr (x, y)"

text \<open>
  \<^verbatim>\<open>stableStringify(value, seen)\<close>. The store is an extra argument. The set \<open>seen\<close> is
  mutated in place by the source: an object is added before its children are visited and
  deleted after the last one returned, so each child sees the caller's set with the
  object added, and the set is back to the caller's on a normal return. An exception
  propagates to the top-level caller, where the set is dropped. In the array branch
  \<^verbatim>\<open>value.map\<close> does not call back for a hole and \<^verbatim>\<open>join\<close> prints a hole as the empty
  string. This function is the source run by an engine whose call stack never runs out;
  \<open>stableStringifyLimited\<close> below is the source on a stack of a given size.
\<close>

function stableStringify :: "('a::finite) heap \<Rightarrow> 'a jsval \<Rightarrow> 'a set \<Rightarrow> error + string" where
  "stableStringify h Null seen = Inr ''null''"
| "stableStringify h (Str s) seen = Inr (''str:'' @ json_stringify s)"
| "stableStringify h (Num n) seen = Inr (if isNaN n then ''num:NaN'' else ''num:'' @ number_to_string n)"
| "stableStringify h (Bool b) seen = Inr (''bool:'' @ (if b then ''1'' else ''0''))"
| "stableStringify h (BigInt i) seen = Inr (''bigint:'' @ int_to_string i)"
| "stableStringify h Undefined seen = Inr ''undef''"
| "stableStringify h (Sym s) seen = Inr (''sym:'' @ description_or_empty s)"
| "stableStringify h (Function name) seen = Inr (''fn:'' @ (if name = [] then ''anonymous'' else name))"
| "stableStringify h (Date t) seen =
     Inr (case t of None \<Rightarrow> ''date:invalid'' | Some isoString \<Rightarrow> ''date:'' @ isoString)"
| "stableStringify h (RegExp r) seen = Inr (''regexp:'' @ r)"
| "stableStringify h (TypedArray c arr) seen =
     (let ctor = (case c of None \<Rightarrow> ''TypedArray'' | Some n \<Rightarrow> n)
      in Inr (''typed:'' @ ctor @ '':'' @ join '','' (map number_to_string arr)))"
| "stableStringify h (Ref a) seen =
     (case h a of
        Array slots \<Rightarrow>
          if a \<in> seen then Inl (TypeError ''stableStringify: circular array reference'')
          else (case sequence (map (\<lambda>slot. case slot of
                                               None \<Rightarrow> Inr []
                                             | Some v \<Rightarrow> stableStringify h v (insert a seen)) slots) of
                  Inl e \<Rightarrow> Inl e
                | Inr inner \<Rightarrow> Inr (''['' @ join '','' inner @ '']''))
      | MapObj es \<Rightarrow>
          if a \<in> seen then Inl (TypeError ''stableStringify: circular Map reference'')
          else (case sequence (map (\<lambda>e. both (stableStringify h (fst e) (insert a seen),
                                               stableStringify h (snd e) (insert a seen))) es) of
                  Inl e \<Rightarrow> Inl e
                | Inr kvs \<Rightarrow>
                    Inr (''map:{'' @ join '','' (map (\<lambda>kv. fst kv @ '':'' @ snd kv) (sort_key fst kvs)) @ ''}''))
      | SetObj vs \<Rightarrow>
          if a \<in> seen then Inl (TypeError ''stableStringify: circular Set reference'')
          else (case sequence (map (\<lambda>v. stableStringify h v (insert a seen)) vs) of
                  Inl e \<Rightarrow> Inl e
                | Inr items \<Rightarrow> Inr (''set:['' @ join '','' (sort items) @ '']''))
      | PlainObject props symprops \<Rightarrow>
          if a \<in> seen then Inl (TypeError ''stableStringify: circular object reference'')
          else (case sequence (map (\<lambda>k. case stableStringify h (getprop props symprops k) (insert a seen) of
                                             Inl e \<Rightarrow> Inl e
                                           | Inr s \<Rightarrow> Inr (keyLabel k @ ''=>'' @ s))
                                   (ownKeysSorted props symprops)) of
                  Inl e \<Rightarrow> Inl e
                | Inr pairs \<Rightarrow> Inr (''{'' @ join '','' pairs @ ''}'')))"
| "stableStringify h (Exotic tag) seen = Inr (''obj:'' @ tag)"
  by pat_completeness auto
termination
proof (relation "measure (\<lambda>(h, v, seen). card (UNIV - seen))")
  show "wf (measure (\<lambda>(h :: 'a heap, v :: 'a jsval, seen :: 'a set). card (UNIV - seen)))"
    by simp
qed (auto simp: card_gt_0_iff subset_iff intro!: diff_less)

text \<open>\<^verbatim>\<open>hashQueryKey\<close>: the top-level call starts from a fresh, empty \<open>seen\<close>.\<close>

definition hashQueryKey :: "('a::finite) heap \<Rightarrow> 'a jsval \<Rightarrow> error + string" where
  "hashQueryKey h key = (case stableStringify h key {} of Inl e \<Rightarrow> Inl e | Inr s \<Rightarrow> Inr (''qk:'' @ s))"

declare stableStringify.simps(12) [simp del]

section \<open>Vocabulary for the properties of the serializer\<close>

text \<open>
  The values an object holds, in the order the serializer visits them: the elements of
  an array or Set, key and value of each entry of a Map, the property values of a plain
  object in the order of \<open>ownKeysSorted\<close>.
\<close>

definition children :: "'a jsobj \<Rightarrow> 'a jsval list" where
  "children obj =
     (case obj of
        Array slots \<Rightarrow> concat (map (\<lambda>slot. case slot of None \<Rightarrow> [] | Some v \<Rightarrow> [v]) slots)
      | MapObj es \<Rightarrow> concat (map (\<lambda>e. [fst e, snd e]) es)
      | SetObj vs \<Rightarrow> vs
      | PlainObject props symprops \<Rightarrow> map (getprop props symprops) (ownKeysSorted props symprops))"

text \<open>
  The object graph of a store: an edge from \<open>a\<close> to \<open>b\<close> when the object at \<open>a\<close> holds a
  reference to \<open>b\<close>. A value is cyclic when it reaches an object that lies on a cycle.
\<close>

definition edges :: "'a heap \<Rightarrow> ('a \<times> 'a) set" where
  "edges h = {(a, b). Ref b \<in> set (children (h a))}"

definition reaches :: "'a heap \<Rightarrow> 'a jsval \<Rightarrow> 'a \<Rightarrow> bool" where
  "reaches h v b = (case v of Ref a \<Rightarrow> (a, b) \<in> (edges h)\<^sup>* | _ \<Rightarrow> False)"

definition cyclic :: "'a heap \<Rightarrow> 'a jsval \<Rightarrow> bool" where
  "cyclic h v = (\<exists>b. reaches h v b \<and> (b, b) \<in> (edges h)\<^sup>+)"

text \<open>The four messages of the source, by the kind of the object met again.\<close>

definition kind_name :: "'a jsobj \<Rightarrow> string" where
  "kind_name obj =
     (case obj of Array _ \<Rightarrow> ''array'' | MapObj _ \<Rightarrow> ''Map'' | SetObj _ \<Rightarrow> ''Set''
      | PlainObject _ _ \<Rightarrow> ''object'')"

definition circular :: "'a jsobj \<Rightarrow> error" where
  "circular obj = TypeError (''stableStringify: circular '' @ kind_name obj @ '' reference'')"

text \<open>
  The string an object is given once its children are serialized, as a function of the
  children's strings in visiting order (for a Map: key, value, key, value, ...; for an
  array the strings go to the slots that are not holes).
\<close>

fun pairs :: "'b list \<Rightarrow> ('b \<times> 'b) list" where
  "pairs (k # v # rest) = (k, v) # pairs rest"
| "pairs _ = []"

fun fill :: "'b option list \<Rightarrow> string list \<Rightarrow> string list" where
  "fill [] ss = []"
| "fill (None # slots) ss = [] # fill slots ss"
| "fill (Some v # slots) [] = []"
| "fill (Some v # slots) (s # ss) = s # fill slots ss"

definition render :: "'a jsobj \<Rightarrow> string list \<Rightarrow> string" where
  "render obj ss =
     (case obj of
        Array slots \<Rightarrow> ''['' @ join '','' (fill slots ss) @ '']''
      | MapObj _ \<Rightarrow>
          ''map:{'' @ join '','' (map (\<lambda>kv. fst kv @ '':'' @ snd kv) (sort_key fst (pairs ss))) @ ''}''
      | SetObj _ \<Rightarrow> ''set:['' @ join '','' (sort ss) @ '']''
      | PlainObject props symprops \<Rightarrow>
          ''{'' @ join '','' (map2 (\<lambda>k s. keyLabel k @ ''=>'' @ s) (ownKeysSorted props symprops) ss) @ ''}'')"

text \<open>
  The source on a call stack that holds \<open>frames\<close> more nested calls of the serializer.
  The source calls itself once for each level of nesting (lines 89, 100, 113 and 130) and
  has no bound on the depth of its own, and every engine's call stack is finite: a call
  that finds no frame left raises the engine's \<^verbatim>\<open>RangeError\<close>; every other call does
  what \<open>stableStringify\<close> does and leaves one frame fewer to the calls it makes.
\<close>

fun stableStringifyLimited :: "nat \<Rightarrow> ('a::finite) heap \<Rightarrow> 'a jsval \<Rightarrow> 'a set \<Rightarrow> error + string" where
  "stableStringifyLimited 0 h v seen = Inl RangeError"
| "stableStringifyLimited (Suc frames) h (Ref a) seen =
     (case h a of
        Array slots \<Rightarrow>
          if a \<in> seen then Inl (TypeError ''stableStringify: circular array reference'')
          else (case sequence (map (\<lambda>slot. case slot of
                                               None \<Rightarrow> Inr []
                                             | Some v \<Rightarrow> stableStringifyLimited frames h v (insert a seen)) slots) of
                  Inl e \<Rightarrow> Inl e
                | Inr inner \<Rightarrow> Inr (''['' @ join '','' inner @ '']''))
      | MapObj es \<Rightarrow>
          if a \<in> seen then Inl (TypeError ''stableStringify: circular Map reference'')
          else (case sequence (map (\<lambda>e. both (stableStringifyLimited frames h (fst e) (insert a seen),
                                               stableStringifyLimited frames h (snd e) (insert a seen))) es) of
                  Inl e \<Rightarrow> Inl e
                | Inr kvs \<Rightarrow>
                    Inr (''map:{'' @ join '','' (map (\<lambda>kv. fst kv @ '':'' @ snd kv) (sort_key fst kvs)) @ ''}''))
      | SetObj vs \<Rightarrow>
          if a \<in> seen then Inl (TypeError ''stableStringify: circular Set reference'')
          else (case sequence (map (\<lambda>v. stableStringifyLimited frames h v (insert a seen)) vs) of
                  Inl e \<Rightarrow> Inl e
                | Inr items \<Rightarrow> Inr (''set:['' @ join '','' (sort items) @ '']''))
      | PlainObject props symprops \<Rightarrow>
          if a \<in> seen then Inl (TypeError ''stableStringify: circular object reference'')
          else (case sequence (map (\<lambda>k. case stableStringifyLimited frames h (getprop props symprops k) (insert a seen) of
                                             Inl e \<Rightarrow> Inl e
                                           | Inr s \<Rightarrow> Inr (keyLabel k @ ''=>'' @ s))
                                   (ownKeysSorted props symprops)) of
                  Inl e \<Rightarrow> Inl e
                | Inr parts \<Rightarrow> Inr (''{'' @ join '','' parts @ ''}'')))"
| "stableStringifyLimited (Suc frames) h v seen = stableStringify h v seen"

declare stableStringifyLimited.simps(2) [simp del]



text \<open>
  The serialized form of the element in a slot of a sequence; a hole counts as the empty
  form, which is what \<^verbatim>\<open>join\<close> prints for it.
\<close>

definition slot_form :: "('a::finite) heap \<Rightarrow> 'a jsval option \<Rightarrow> error + string" where
  "slot_form h slot = (case slot of None \<Rightarrow> Inr [] | Some v \<Rightarrow> stableStringify h v {})"

text \<open>
  Well-nested texts. Read from left to right, the double quotes of the text pair up
  (between quotes a backslash escapes the next character), the brackets and braces
  outside quotes balance, and every comma is between quotes or brackets. The texts
  \<^verbatim>\<open>/[a-z]{2,3}/\<close>, \<^verbatim>\<open>[object WeakMap]\<close> and every text without quote, bracket, brace
  and comma are well nested; \<^verbatim>\<open>a,b\<close> and \<^verbatim>\<open>a]\<close> are not. \<open>d\<close> counts the brackets that are
  open.
\<close>

datatype mode = Outside | Inside | Escaped

fun balanced :: "mode \<Rightarrow> nat \<Rightarrow> string \<Rightarrow> bool" where
  "balanced m d [] = (m = Outside \<and> d = 0)"
| "balanced Outside d (c # cs) =
     (if c = CHR 0x22 then balanced Inside d cs
      else if c = CHR ''['' \<or> c = CHR ''{'' then balanced Outside (Suc d) cs
      else if c = CHR '']'' \<or> c = CHR ''}'' then d \<noteq> 0 \<and> balanced Outside (d - 1) cs
      else if c = CHR '','' then d \<noteq> 0 \<and> balanced Outside d cs
      else balanced Outside d cs)"
| "balanced Inside d (c # cs) =
     (if c = CHR 0x5C then balanced Escaped d cs
      else if c = CHR 0x22 then balanced Outside d cs
      else balanced Inside d cs)"
| "balanced Escaped d (c # cs) = balanced Inside d cs"

definition well_nested :: "string \<Rightarrow> bool" where
  "well_nested s = balanced Outside 0 s"

text \<open>
  Values whose serialized form is delimited. The serializer copies some texts into its
  output as they are: the description of a symbol, the name of a function, the source of
  a regular expression, the constructor name of a typed array, the tag of an exotic
  object, the text of a date. A value is delimited when every such text in it, to any
  depth, is well nested. Strings, numbers, big integers and the elements of typed arrays
  are not restricted, nor is the nesting of arrays, Maps, Sets and plain objects.
\<close>

fun delimited_value :: "'a jsval \<Rightarrow> bool" where
  "delimited_value (Sym s) = well_nested (description_or_empty s)"
| "delimited_value (Function name) = well_nested name"
| "delimited_value (Date (Some isoString)) = well_nested isoString"
| "delimited_value (RegExp r) = well_nested r"
| "delimited_value (TypedArray c arr) = well_nested (case c of None \<Rightarrow> ''TypedArray'' | Some n \<Rightarrow> n)"
| "delimited_value (Exotic tag) = well_nested tag"
| "delimited_value _ = True"

definition delimited_object :: "'a jsobj \<Rightarrow> bool" where
  "delimited_object obj \<longleftrightarrow>
     list_all delimited_value (children obj)
     \<and> (case obj of
          PlainObject props symprops \<Rightarrow> list_all (\<lambda>k. well_nested (description_or_empty k)) (map fst symprops)
        | _ \<Rightarrow> True)"

definition delimited :: "'a heap \<Rightarrow> 'a jsval \<Rightarrow> bool" where
  "delimited h v \<longleftrightarrow> delimited_value v \<and> (\<forall>b. reaches h v b \<longrightarrow> delimited_object (h b))"

text \<open>
  A scanner for the first serialized form of a text: it reads up to the first comma or
  closing bracket or brace that is outside every string and every bracket opened since
  the start, or to the end. A comma followed by the first character of a printed number
  separates two elements of a typed array and is read through: no serialized form begins
  with such a character.
\<close>

definition number_start :: "string \<Rightarrow> bool" where
  "number_start s = (case s of [] \<Rightarrow> False | c # cs \<Rightarrow> c \<in> set ''0123456789-NI'')"

fun first_form :: "mode \<Rightarrow> nat \<Rightarrow> string \<Rightarrow> string" where
  "first_form m d [] = []"
| "first_form Outside d (c # cs) =
     (if c = CHR 0x22 then c # first_form Inside d cs
      else if c = CHR ''['' \<or> c = CHR ''{'' then c # first_form Outside (Suc d) cs
      else if c = CHR '']'' \<or> c = CHR ''}'' then (if d = 0 then [] else c # first_form Outside (d - 1) cs)
      else if c = CHR '','' then (if d = 0 \<and> \<not> number_start cs then [] else c # first_form Outside d cs)
      else c # first_form Outside d cs)"
| "first_form Inside d (c # cs) =
     (if c = CHR 0x5C then c # first_form Escaped d cs
      else if c = CHR 0x22 then c # first_form Outside d cs
      else c # first_form Inside d cs)"
| "first_form Escaped d (c # cs) = c # first_form Inside d cs"

text \<open>A text the scanner reads through, at any depth, without stopping or changing state.\<close>

definition transparent :: "string \<Rightarrow> bool" where
  "transparent s \<longleftrightarrow> (\<forall>d r. first_form Outside d (s @ r) = s @ first_form Outside d r)"

text \<open>The same inside a bracket, where a comma does not stop the scanner.\<close>

definition enclosed :: "string \<Rightarrow> bool" where
  "enclosed s \<longleftrightarrow> (\<forall>d r. first_form Outside (Suc d) (s @ r) = s @ first_form Outside (Suc d) r)"

text \<open>A text without double quote, bracket, brace and comma.\<close>

definition special :: "char set" where
  "special = {CHR 0x22, CHR ''['', CHR '']'', CHR ''{'', CHR ''}'', CHR '',''}"

definition plain_text :: "string \<Rightarrow> bool" where
  "plain_text s \<longleftrightarrow> set s \<inter> special = {}"

text \<open>The kinds of value the serializer tells apart, and the text each kind's output begins with.\<close>

datatype kind =
    KNull | KString | KNumber | KBoolean | KBigInt | KUndefined | KSymbol | KFunction
  | KDate | KRegExp | KTypedArray | KArray | KMap | KSet | KObject | KExotic

fun kind_of :: "'a heap \<Rightarrow> 'a jsval \<Rightarrow> kind" where
  "kind_of h Null = KNull"
| "kind_of h (Str _) = KString"
| "kind_of h (Num _) = KNumber"
| "kind_of h (Bool _) = KBoolean"
| "kind_of h (BigInt _) = KBigInt"
| "kind_of h Undefined = KUndefined"
| "kind_of h (Sym _) = KSymbol"
| "kind_of h (Function _) = KFunction"
| "kind_of h (Date _) = KDate"
| "kind_of h (RegExp _) = KRegExp"
| "kind_of h (TypedArray _ _) = KTypedArray"
| "kind_of h (Ref a) =
     (case h a of Array _ \<Rightarrow> KArray | MapObj _ \<Rightarrow> KMap | SetObj _ \<Rightarrow> KSet | PlainObject _ _ \<Rightarrow> KObject)"
| "kind_of h (Exotic _) = KExotic"

fun tag :: "kind \<Rightarrow> string" where
  "tag KNull = ''null''"
| "tag KString = ''str:''"
| "tag KNumber = ''num:''"
| "tag KBoolean = ''bool:''"
| "tag KBigInt = ''bigint:''"
| "tag KUndefined = ''undef''"
| "tag KSymbol = ''sym:''"
| "tag KFunction = ''fn:''"
| "tag KDate = ''date:''"
| "tag KRegExp = ''regexp:''"
| "tag KTypedArray = ''typed:''"
| "tag KArray = ''[''"
| "tag KMap = ''map:{''"
| "tag KSet = ''set:[''"
| "tag KObject = ''{''"
| "tag KExotic = ''obj:''"

text \<open>
  The serialized form of a Map as the specification words it: each entry is serialized as
  \<^verbatim>\<open>serialize(key) + ":" + serialize(value)\<close>, and the serialized entries are sorted
  before joining.
\<close>

definition spec_map_form :: "(string \<times> string) list \<Rightarrow> string" where
  "spec_map_form kvs = ''map:{'' @ join '','' (sort (map (\<lambda>kv. fst kv @ '':'' @ snd kv) kvs)) @ ''}''"

definition spec_stringify_map :: "('a::finite) heap \<Rightarrow> ('a jsval \<times> 'a jsval) list \<Rightarrow> error + string" where
  "spec_stringify_map h es =
     (case sequence (map (\<lambda>e. both (stableStringify h (fst e) {}, stableStringify h (snd e) {})) es) of
        Inl e \<Rightarrow> Inl e
      | Inr kvs \<Rightarrow> Inr (spec_map_form kvs))"

section \<open>The notification primitive\<close>

text \<open>
  \<^verbatim>\<open>packages/core/src/subscribable.ts\<close>. A listener is a callback; the model names it by
  a number (its identity) and describes what a call of it does by a \<open>behaviour\<close>: the
  calls it makes back into the bus, in order, and whether it then returns or throws.

  The fields \<open>listeners\<close>, \<open>pendingFlush\<close>, \<open>hasQueuedValue\<close> and \<open>lastValue\<close> are those of
  the class; \<open>lastValue\<close> is \<open>None\<close> until the first \<^verbatim>\<open>notify\<close>. The other fields are the
  surroundings of an instance:
  \<^item> \<open>subscriptions\<close>: one entry per call of \<^verbatim>\<open>subscribe\<close> so far, holding the listener
    and the flag \<^verbatim>\<open>unsubscribed\<close> captured by the closure that call returned; the
    closure is named by the index of its entry;
  \<^item> \<open>microtasks\<close>: the number of flush callbacks handed to \<^verbatim>\<open>queueMicrotask\<close> and not
    yet run;
  \<^item> \<open>calls\<close>: every call of a listener so far, with its payload;
  \<^item> \<open>subscribeHooks\<close>, \<open>unsubscribeHooks\<close>, \<open>notifyErrors\<close>: the calls of the three
    overridable hooks so far, as a recording subclass sees them.
\<close>

type_synonym listener = nat

type_synonym exn = string

datatype 'v cmd = Subscribe listener | Unsubscribe nat | Notify 'v

type_synonym 'v behaviour = "listener \<Rightarrow> 'v option \<Rightarrow> 'v cmd list \<times> exn option"

record 'v subscribable =
  listeners :: "listener list"
  pendingFlush :: bool
  hasQueuedValue :: bool
  lastValue :: "'v option"
  subscriptions :: "(listener \<times> bool) list"
  microtasks :: nat
  calls :: "(listener \<times> 'v option) list"
  subscribeHooks :: nat
  unsubscribeHooks :: nat
  notifyErrors :: "exn list"

definition new_subscribable :: "'v subscribable" where
  "new_subscribable =
     \<lparr>listeners = [], pendingFlush = False, hasQueuedValue = False, lastValue = None,
      subscriptions = [], microtasks = 0, calls = [], subscribeHooks = 0,
      unsubscribeHooks = 0, notifyErrors = []\<rparr>"

text \<open>
  \<^verbatim>\<open>subscribe\<close>: \<^verbatim>\<open>Set.add\<close> keeps the place of a listener that is already present;
  \<^verbatim>\<open>onSubscribe\<close> runs on every call. The result is the new closure and the state.
\<close>

definition subscribe :: "listener \<Rightarrow> 'v subscribable \<Rightarrow> nat \<times> 'v subscribable" where
  "subscribe listener s =
     (length (subscriptions s),
      s\<lparr>listeners := (if listener \<in> set (listeners s) then listeners s else listeners s @ [listener]),
        subscribeHooks := Suc (subscribeHooks s),
        subscriptions := subscriptions s @ [(listener, False)]\<rparr>)"

text \<open>
  The closure returned by \<^verbatim>\<open>subscribe\<close>. An index that names no closure stands for no
  call at all.
\<close>

definition unsubscribe :: "nat \<Rightarrow> 'v subscribable \<Rightarrow> 'v subscribable" where
  "unsubscribe c s =
     (if c < length (subscriptions s) then
        (let listener = fst (subscriptions s ! c); unsubscribed = snd (subscriptions s ! c)
         in if unsubscribed then s
            else let existed = listener \<in> set (listeners s);
                     s1 = s\<lparr>subscriptions := (subscriptions s)[c := (listener, True)],
                            listeners := removeAll listener (listeners s)\<rparr>
                 in if existed then s1\<lparr>unsubscribeHooks := Suc (unsubscribeHooks s1)\<rparr> else s1)
      else s)"

text \<open>\<^verbatim>\<open>notify\<close>, up to the call of \<^verbatim>\<open>queueMicrotask\<close>.\<close>

definition notify :: "'v \<Rightarrow> 'v subscribable \<Rightarrow> 'v subscribable" where
  "notify v s =
     (let s1 = s\<lparr>lastValue := Some v, hasQueuedValue := True\<rparr>
      in if pendingFlush s1 then s1
         else s1\<lparr>pendingFlush := True, microtasks := Suc (microtasks s1)\<rparr>)"

fun exec :: "'v cmd \<Rightarrow> 'v subscribable \<Rightarrow> 'v subscribable" where
  "exec (Subscribe l) s = snd (subscribe l s)"
| "exec (Unsubscribe c) s = unsubscribe c s"
| "exec (Notify v) s = notify v s"

text \<open>
  The call \<^verbatim>\<open>fn(payload)\<close>: the listener's calls into the bus take effect, then it returns
  (\<open>None\<close>) or throws.
\<close>

definition call_listener ::
  "'v behaviour \<Rightarrow> 'v option \<Rightarrow> listener \<Rightarrow> 'v subscribable \<Rightarrow> exn option \<times> 'v subscribable" where
  "call_listener act payload fn s =
     (snd (act fn payload),
      foldl (\<lambda>s c. exec c s) (s\<lparr>calls := calls s @ [(fn, payload)]\<rparr>) (fst (act fn payload)))"

text \<open>\<^verbatim>\<open>onNotifyError\<close>, recorded.\<close>

definition onNotifyError :: "exn \<Rightarrow> 'v subscribable \<Rightarrow> 'v subscribable" where
  "onNotifyError err s = s\<lparr>notifyErrors := notifyErrors s @ [err]\<rparr>"

text \<open>
  One round of the loop of the flush: \<^verbatim>\<open>try { fn(payload) } catch (err) { this.onNotifyError(err) }\<close>.
  The catch clause consumes the exception, so a round always completes normally.
\<close>

definition deliver :: "'v behaviour \<Rightarrow> 'v option \<Rightarrow> 'v subscribable \<Rightarrow> listener \<Rightarrow> 'v subscribable" where
  "deliver act payload s fn =
     (case call_listener act payload fn s of
        (None, s1) \<Rightarrow> s1
      | (Some err, s1) \<Rightarrow> onNotifyError err s1)"

text \<open>The callback handed to \<^verbatim>\<open>queueMicrotask\<close>.\<close>

definition flush :: "'v behaviour \<Rightarrow> 'v subscribable \<Rightarrow> 'v subscribable" where
  "flush act s =
     (let s1 = s\<lparr>pendingFlush := False\<rparr>
      in if \<not> hasQueuedValue s1 then s1
         else let payload = lastValue s1;
                  s2 = s1\<lparr>hasQueuedValue := False\<rparr>;
                  snapshot = listeners s2
              in foldl (deliver act payload) s2 snapshot)"

text \<open>The suspension point: the oldest queued callback, if any, is taken off the queue and run.\<close>

definition run_microtask :: "'v behaviour \<Rightarrow> 'v subscribable \<Rightarrow> 'v subscribable" where
  "run_microtask act s =
     (if microtasks s = 0 then s else flush act (s\<lparr>microtasks := microtasks s - 1\<rparr>))"

definition listenerCount :: "'v subscribable \<Rightarrow> nat" where
  "listenerCount s = length (listeners s)"

definition hasListeners :: "'v subscribable \<Rightarrow> bool" where
  "hasListeners s = (length (listeners s) > 0)"

text \<open>
  A history of an instance: calls of its interface from outside, and suspension points.
\<close>

datatype 'v event = Call "'v cmd" | Suspend

fun step :: "'v behaviour \<Rightarrow> 'v subscribable \<Rightarrow> 'v event \<Rightarrow> 'v subscribable" where
  "step act s (Call c) = exec c s"
| "step act s Suspend = run_microtask act s"




section \<open>Example stores\<close>

text \<open>A plain object that holds itself, and an array of two primitives.\<close>

definition looped :: "bool heap" where
  "looped = (\<lambda>a. if a then PlainObject [(''self'', Ref True), (''x'', Num (Finite 1))] []
                  else Array [Some (Str ''todos''), Some (Num (Finite 1))])"



text \<open>The array \<^verbatim>\<open>['todos']\<close>.\<close>

definition todos :: "bool heap" where
  "todos = (\<lambda>a. Array [Some (Str ''todos'')])"

text \<open>
  A store addressed by letters.
  \<^item> \<open>p\<close> and \<open>q\<close>: the arrays \<^verbatim>\<open>[[1, 2], [3, 4]]\<close> and \<^verbatim>\<open>[[3, 4], [1, 2]]\<close>, with
    the inner arrays at \<open>x\<close> and \<open>y\<close>.
  \<^item> \<open>u\<close> and \<open>v\<close>: the arrays \<^verbatim>\<open>[, 1]\<close> and \<^verbatim>\<open>[1, ,]\<close>, a hole and a number in both
    orders.
  \<^item> \<open>k\<close> and \<open>l\<close>: the keys \<^verbatim>\<open>['a', [{b: 1}, {c: [2, 3]}]]\<close> and
    \<^verbatim>\<open>['a', [{c: [2, 3]}, {b: 1}]]\<close> of the repository's test of nested arrays, with the
    inner arrays at \<open>m\<close> and \<open>n\<close>, the objects at \<open>b\<close> and \<open>c\<close> and \<^verbatim>\<open>[2, 3]\<close> at \<open>t\<close>.
  \<^item> \<open>g\<close> and \<open>h\<close>: the arrays \<^verbatim>\<open>['a,b', /[a-z]{2,3}/]\<close> and \<^verbatim>\<open>[/[a-z]{2,3}/, 'a,b']\<close>.
\<close>

definition letters :: "char heap" where
  "letters =
     (\<lambda>a. if a = CHR ''p'' then Array [Some (Ref CHR ''x''), Some (Ref CHR ''y'')]
           else if a = CHR ''q'' then Array [Some (Ref CHR ''y''), Some (Ref CHR ''x'')]
           else if a = CHR ''x'' then Array [Some (Num (Finite 1)), Some (Num (Finite 2))]
           else if a = CHR ''y'' then Array [Some (Num (Finite 3)), Some (Num (Finite 4))]
           else if a = CHR ''u'' then Array [None, Some (Num (Finite 1))]
           else if a = CHR ''v'' then Array [Some (Num (Finite 1)), None]
           else if a = CHR ''k'' then Array [Some (Str ''a''), Some (Ref CHR ''m'')]
           else if a = CHR ''l'' then Array [Some (Str ''a''), Some (Ref CHR ''n'')]
           else if a = CHR ''m'' then Array [Some (Ref CHR ''b''), Some (Ref CHR ''c'')]
           else if a = CHR ''n'' then Array [Some (Ref CHR ''c''), Some (Ref CHR ''b'')]
           else if a = CHR ''b'' then PlainObject [(''b'', Num (Finite 1))] []
           else if a = CHR ''c'' then PlainObject [(''c'', Ref CHR ''t'')] []
           else if a = CHR ''t'' then Array [Some (Num (Finite 2)), Some (Num (Finite 3))]
           else if a = CHR ''g'' then Array [Some (Str ''a,b''), Some (RegExp ''/[a-z]{2,3}/'')]
           else if a = CHR ''h'' then Array [Some (RegExp ''/[a-z]{2,3}/''), Some (Str ''a,b'')]
           else Array [])"

text \<open>
  Two symbols, \<^verbatim>\<open>Symbol('a,sym:a')\<close> and \<^verbatim>\<open>Symbol('a')\<close>, in an array, in both orders.
\<close>

definition comma_symbols :: "bool heap" where
  "comma_symbols =
     (\<lambda>a. if a then Array [Some (Sym (Symbol 0 (Some ''a,sym:a''))), Some (Sym (Symbol 1 (Some ''a'')))]
           else Array [Some (Sym (Symbol 1 (Some ''a''))), Some (Sym (Symbol 0 (Some ''a,sym:a'')))])"

text \<open>The symbols \<^verbatim>\<open>Symbol()\<close> and \<^verbatim>\<open>Symbol('')\<close> in an array, in both orders.\<close>

definition blank_symbols :: "bool heap" where
  "blank_symbols =
     (\<lambda>a. if a then Array [Some (Sym (Symbol 0 None)), Some (Sym (Symbol 1 (Some [])))]
           else Array [Some (Sym (Symbol 1 (Some []))), Some (Sym (Symbol 0 None))])"

text \<open>
  Two Maps with the entries \<^verbatim>\<open>Symbol() => 1\<close> and \<^verbatim>\<open>Symbol('') => 2\<close>, inserted in
  opposite orders.
\<close>

definition tied_keys :: "bool heap" where
  "tied_keys =
     (\<lambda>a. if a then MapObj [(Sym (Symbol 0 None), Num (Finite 1)), (Sym (Symbol 1 (Some [])), Num (Finite 2))]
           else MapObj [(Sym (Symbol 1 (Some [])), Num (Finite 2)), (Sym (Symbol 0 None), Num (Finite 1))])"

text \<open>Two Maps with the entries \<^verbatim>\<open>1 => 7\<close> and \<^verbatim>\<open>10 => 8\<close>, inserted in opposite orders.\<close>

definition prefix_keys :: "bool heap" where
  "prefix_keys =
     (\<lambda>a. if a then MapObj [(Num (Finite 1), Num (Finite 7)), (Num (Finite 10), Num (Finite 8))]
           else MapObj [(Num (Finite 10), Num (Finite 8)), (Num (Finite 1), Num (Finite 7))])"

text \<open>
  Two plain objects with the properties \<^verbatim>\<open>[Symbol('x')]: 1\<close> and \<^verbatim>\<open>[Symbol('x')]: 2\<close>
  (two symbols of the same description), inserted in opposite orders.
\<close>

definition same_description :: "bool heap" where
  "same_description =
     (\<lambda>a. if a then PlainObject [] [(Symbol 0 (Some ''x''), Num (Finite 1)), (Symbol 1 (Some ''x''), Num (Finite 2))]
           else PlainObject [] [(Symbol 1 (Some ''x''), Num (Finite 2)), (Symbol 0 (Some ''x''), Num (Finite 1))])"

text \<open>Listeners that return without calling back into the bus.\<close>

definition silent :: "nat behaviour" where
  "silent = (\<lambda>fn payload. ([], None))"

text \<open>Listener \<open>4\<close> throws \<^verbatim>\<open>boom\<close>; every other listener returns.\<close>

definition thrower :: "nat behaviour" where
  "thrower = (\<lambda>fn payload. ([], if fn = 4 then Some ''boom'' else None))"

section \<open>The serializer: unfolding and the object graph\<close>

lemma sequence_Inr_iff: "sequence rs = Inr xs \<longleftrightarrow> rs = map Inr xs"
proof (induction rs arbitrary: xs)
  case (Cons r rs)
  show ?case
  proof (cases r)
    case (Inl e)
    then show ?thesis by (cases xs) simp_all
  next
    case (Inr x)
    then show ?thesis using Cons [of "tl xs"]
      by (cases "sequence rs"; cases xs) auto
  qed
qed auto


lemma sequence_entries:
  "sequence (map (\<lambda>e. both (f (fst e), f (snd e))) es) =
   map_sum id pairs (sequence (map f (concat (map (\<lambda>e. [fst e, snd e]) es))))"
proof (induction es)
  case (Cons e es)
  then show ?case
    by (cases "f (fst e)"; cases "f (snd e)";
        cases "sequence (map f (concat (map (\<lambda>e. [fst e, snd e]) es)))") simp_all
qed simp

lemma sequence_labelled:
  "sequence (map (\<lambda>k. case f (g k) of Inl e \<Rightarrow> Inl e | Inr s \<Rightarrow> Inr (lab k @ sep @ s)) ks) =
   map_sum id (map2 (\<lambda>k s. lab k @ sep @ s) ks) (sequence (map f (map g ks)))"
proof (induction ks)
  case (Cons k ks)
  then show ?case
    by (cases "f (g k)"; cases "sequence (map f (map g ks))") simp_all
qed simp

lemma sequence_slots:
  "sequence (map (\<lambda>slot. case slot of None \<Rightarrow> Inr [] | Some v \<Rightarrow> f v) slots) =
   map_sum id (fill slots)
     (sequence (map f (concat (map (\<lambda>slot. case slot of None \<Rightarrow> [] | Some v \<Rightarrow> [v]) slots))))"
proof (induction slots)
  case (Cons slot slots)
  show ?case
  proof (cases slot)
    case None
    with Cons show ?thesis
      by (cases "sequence (map f (concat (map (\<lambda>slot. case slot of None \<Rightarrow> [] | Some v \<Rightarrow> [v]) slots)))")
         simp_all
  next
    case (Some v)
    with Cons show ?thesis
      by (cases "f v";
          cases "sequence (map f (concat (map (\<lambda>slot. case slot of None \<Rightarrow> [] | Some v \<Rightarrow> [v]) slots)))")
         simp_all
  qed
qed simp

lemma stringify_Ref:
  "stableStringify h (Ref a) seen =
     (if a \<in> seen then Inl (circular (h a))
      else case sequence (map (\<lambda>v. stableStringify h v (insert a seen)) (children (h a))) of
             Inl e \<Rightarrow> Inl e
           | Inr ss \<Rightarrow> Inr (render (h a) ss))"
proof (cases "h a")
  case (Array slots)
  then show ?thesis
    using sequence_slots [where f = "\<lambda>v. stableStringify h v (insert a seen)" and slots = slots]
    by (simp add: stableStringify.simps(12) circular_def kind_name_def children_def render_def split: sum.splits)
next
  case (MapObj es)
  then show ?thesis
    using sequence_entries [where f = "\<lambda>v. stableStringify h v (insert a seen)" and es = es]
    by (simp add: stableStringify.simps(12) circular_def kind_name_def children_def render_def split: sum.splits)
next
  case (SetObj vs)
  then show ?thesis
    by (simp add: stableStringify.simps(12) circular_def kind_name_def children_def render_def split: sum.splits)
next
  case (PlainObject props symprops)
  then show ?thesis
    using sequence_labelled [where f = "\<lambda>v. stableStringify h v (insert a seen)"
        and g = "getprop props symprops" and lab = keyLabel and sep = "''=>''"
        and ks = "ownKeysSorted props symprops"]
    by (simp add: stableStringify.simps(12) circular_def kind_name_def children_def render_def split: sum.splits)
qed

lemma card_unseen_less:
  fixes seen :: "('a::finite) set"
  shows "a \<notin> seen \<Longrightarrow> card (UNIV - insert a seen) < card (UNIV - seen)"
  by (rule psubset_card_mono) auto


lemma reaches_Ref [simp]: "reaches h (Ref a) b \<longleftrightarrow> (a, b) \<in> (edges h)\<^sup>*"
  by (simp add: reaches_def)

lemma reaches_is_Ref: "reaches h v b \<Longrightarrow> \<exists>a. v = Ref a"
  by (cases v) (simp_all add: reaches_def)

lemma map_Inr_nth:
  assumes "map f zs = map Inr us" "i < length us"
  shows "f (zs ! i) = Inr (us ! i) \<and> zs ! i \<in> set zs"
proof -
  from assms(1) have "length zs = length us" by (rule map_eq_imp_length_eq)
  moreover from assms(1) have "map f zs ! i = map Inr us ! i" by simp
  ultimately show ?thesis using assms(2) by simp
qed

lemma map_Inr_elem:
  assumes "map f zs = map Inr us" "z \<in> set zs"
  shows "\<exists>u. f z = Inr u"
proof -
  from assms(2) obtain i where i: "i < length zs" "zs ! i = z" by (auto simp: in_set_conv_nth)
  from assms(1) have "length zs = length us" by (rule map_eq_imp_length_eq)
  with map_Inr_nth [OF assms(1), of i] i show ?thesis by auto
qed

lemma stringify_ok_not_seen: "stableStringify h (Ref a) seen = Inr s \<Longrightarrow> a \<notin> seen"
  by (rule notI) (simp add: stringify_Ref)


lemma stringify_child_ok:
  assumes "stableStringify h (Ref a) seen = Inr s" "c \<in> set (children (h a))"
  shows "\<exists>t. stableStringify h c (insert a seen) = Inr t"
proof -
  from assms(1) have a: "a \<notin> seen" by (rule stringify_ok_not_seen)
  with assms(1) obtain ss where
    "sequence (map (\<lambda>v. stableStringify h v (insert a seen)) (children (h a))) = Inr ss"
    by (simp add: stringify_Ref split: sum.splits)
  then have "map (\<lambda>v. stableStringify h v (insert a seen)) (children (h a)) = map Inr ss"
    by (simp only: sequence_Inr_iff)
  from map_Inr_elem [OF this assms(2)] show ?thesis .
qed


lemma stringify_ok_avoids_seen:
  fixes seen :: "('a::finite) set"
  shows "stableStringify h v seen = Inr s \<Longrightarrow> reaches h v b \<Longrightarrow> b \<notin> seen"
proof (induction "card (UNIV - seen)" arbitrary: seen v s rule: less_induct)
  case less
  from reaches_is_Ref [OF less.prems(2)] obtain a where v: "v = Ref a" by blast
  from less.prems(1) have a: "a \<notin> seen" unfolding v by (rule stringify_ok_not_seen)
  from less.prems(2) v have "(a, b) \<in> (edges h)\<^sup>*" by simp
  then show ?case
  proof (cases rule: converse_rtranclE)
    case base
    with a show ?thesis by simp
  next
    case (step c)
    then have "Ref c \<in> set (children (h a))" by (simp add: edges_def)
    from stringify_child_ok [OF less.prems(1) [unfolded v] this]
    obtain t where "stableStringify h (Ref c) (insert a seen) = Inr t" ..
    from less.hyps [OF card_unseen_less [OF a] this] step(2) show ?thesis by simp
  qed
qed

lemma stringify_ok_acyclic:
  fixes seen :: "('a::finite) set"
  shows "stableStringify h v seen = Inr s \<Longrightarrow> \<not> cyclic h v"
proof (induction "card (UNIV - seen)" arbitrary: seen v s rule: less_induct)
  case less
  show ?case
  proof
    assume "cyclic h v"
    then obtain b where b: "reaches h v b" "(b, b) \<in> (edges h)\<^sup>+" by (auto simp: cyclic_def)
    from reaches_is_Ref [OF b(1)] obtain a where v: "v = Ref a" by blast
    from less.prems have a: "a \<notin> seen" unfolding v by (rule stringify_ok_not_seen)
    have child: "\<exists>t. stableStringify h (Ref c) (insert a seen) = Inr t" if "(a, c) \<in> edges h" for c
    proof -
      from that have "Ref c \<in> set (children (h a))" by (simp add: edges_def)
      from stringify_child_ok [OF less.prems [unfolded v] this] show ?thesis .
    qed
    from b(1) v have "(a, b) \<in> (edges h)\<^sup>*" by simp
    then show False
    proof (cases rule: converse_rtranclE)
      case base
      with b(2) obtain c where c: "(a, c) \<in> edges h" "(c, a) \<in> (edges h)\<^sup>*"
        by (auto dest: tranclD)
      from child [OF c(1)] obtain t where "stableStringify h (Ref c) (insert a seen) = Inr t" ..
      from stringify_ok_avoids_seen [OF this, of a] c(2) show False by simp
    next
      case (step c)
      from child [OF step(1)] obtain t where t: "stableStringify h (Ref c) (insert a seen) = Inr t" ..
      from step(2) b(2) have "cyclic h (Ref c)" by (auto simp: cyclic_def)
      with less.hyps [OF card_unseen_less [OF a] t] show False by simp
    qed
  qed
qed

lemma stringify_seen_irrelevant:
  fixes seen seen' :: "('a::finite) set"
  shows "stableStringify h v seen = Inr s \<Longrightarrow> \<forall>b. reaches h v b \<longrightarrow> b \<notin> seen' \<Longrightarrow>
     stableStringify h v seen' = Inr s"
proof (induction "card (UNIV - seen)" arbitrary: seen seen' v s rule: less_induct)
  case less
  show ?case
  proof (cases "\<exists>a. v = Ref a")
    case True
    then obtain a where Ref: "v = Ref a" ..
    from less.prems(1) have a: "a \<notin> seen" unfolding Ref by (rule stringify_ok_not_seen)
    from less.prems(2) have a': "a \<notin> seen'" unfolding Ref by simp
    have "stableStringify h c (insert a seen') = stableStringify h c (insert a seen)"
      if c: "c \<in> set (children (h a))" for c
    proof -
      from stringify_child_ok [OF less.prems(1) [unfolded Ref] c]
      obtain t where t: "stableStringify h c (insert a seen) = Inr t" ..
      have "b \<notin> insert a seen'" if r: "reaches h c b" for b
      proof -
        from reaches_is_Ref [OF r] obtain c' where c': "c = Ref c'" by blast
        with c have "(a, c') \<in> edges h" by (simp add: edges_def)
        with r c' have "reaches h v b" using Ref by (auto intro: converse_rtrancl_into_rtrancl)
        with less.prems(2) have "b \<notin> seen'" by blast
        moreover from stringify_ok_avoids_seen [OF t r] have "b \<noteq> a" by auto
        ultimately show ?thesis by simp
      qed
      with less.hyps [OF card_unseen_less [OF a] t] t show ?thesis by simp
    qed
    then have eq: "map (\<lambda>c. stableStringify h c (insert a seen')) (children (h a)) =
               map (\<lambda>c. stableStringify h c (insert a seen)) (children (h a))"
      by simp
    from less.prems(1) a a' show ?thesis unfolding Ref stringify_Ref eq by simp
  next
    case False
    then show ?thesis using less.prems(1) by (cases v) (simp_all add: Let_def)
  qed
qed

section \<open>The serializer: failures\<close>










lemma limited_Ref:
  "stableStringifyLimited (Suc n) h (Ref a) seen =
     (if a \<in> seen then Inl (circular (h a))
      else case sequence (map (\<lambda>v. stableStringifyLimited n h v (insert a seen)) (children (h a))) of
             Inl e \<Rightarrow> Inl e
           | Inr ss \<Rightarrow> Inr (render (h a) ss))"
proof (cases "h a")
  case (Array slots)
  then show ?thesis
    using sequence_slots [where f = "\<lambda>v. stableStringifyLimited n h v (insert a seen)" and slots = slots]
    by (simp add: stableStringifyLimited.simps(2) circular_def kind_name_def children_def render_def split: sum.splits)
next
  case (MapObj es)
  then show ?thesis
    using sequence_entries [where f = "\<lambda>v. stableStringifyLimited n h v (insert a seen)" and es = es]
    by (simp add: stableStringifyLimited.simps(2) circular_def kind_name_def children_def render_def split: sum.splits)
next
  case (SetObj vs)
  then show ?thesis
    by (simp add: stableStringifyLimited.simps(2) circular_def kind_name_def children_def render_def split: sum.splits)
next
  case (PlainObject props symprops)
  then show ?thesis
    using sequence_labelled [where f = "\<lambda>v. stableStringifyLimited n h v (insert a seen)"
        and g = "getprop props symprops" and lab = keyLabel and sep = "''=>''"
        and ks = "ownKeysSorted props symprops"]
    by (simp add: stableStringifyLimited.simps(2) circular_def kind_name_def children_def render_def split: sum.splits)
qed




lemma deep_nesting_overflows:
  fixes h :: "('a::finite) heap"
  shows "\<forall>k < n. h (c k) = Array [Some (Ref (c (Suc k)))] \<and> c k \<notin> seen \<union> c ` {..<k} \<Longrightarrow>
     stableStringifyLimited n h (Ref (c 0)) seen = Inl RangeError"
proof (induction n arbitrary: c seen)
  case 0
  show ?case by simp
next
  case (Suc n)
  from Suc.prems have top: "h (c 0) = Array [Some (Ref (c (Suc 0)))]" "c 0 \<notin> seen" by auto
  have "\<forall>k < n. h ((c \<circ> Suc) k) = Array [Some (Ref ((c \<circ> Suc) (Suc k)))]
          \<and> (c \<circ> Suc) k \<notin> insert (c 0) seen \<union> (c \<circ> Suc) ` {..<k}"
  proof (intro allI impI)
    fix k assume k: "k < n"
    with Suc.prems have a: "h (c (Suc k)) = Array [Some (Ref (c (Suc (Suc k))))]"
      and b: "c (Suc k) \<notin> seen \<union> c ` {..<Suc k}" by auto
    from b have "c (Suc k) \<noteq> c 0" by (auto simp: image_iff)
    moreover from b have "c (Suc k) \<notin> c ` Suc ` {..<k}" by (auto simp: image_iff)
    ultimately show "h ((c \<circ> Suc) k) = Array [Some (Ref ((c \<circ> Suc) (Suc k)))]
          \<and> (c \<circ> Suc) k \<notin> insert (c 0) seen \<union> (c \<circ> Suc) ` {..<k}"
      using a b by (auto simp: image_iff)
  qed
  from Suc.IH [OF this] have "stableStringifyLimited n h (Ref (c (Suc 0))) (insert (c 0) seen) = Inl RangeError"
    by simp
  with top show ?case by (simp add: limited_Ref children_def)
qed




text \<open>
  C10. A symbol without a description and a symbol whose description is the empty string
  both serialize to \<^verbatim>\<open>sym:\<close>, and as keys of a plain object both are labelled
  \<^verbatim>\<open>keysym:\<close>: two distinct symbols collide.
\<close>

theorem symbol_absent_and_empty_description_collide:
  fixes h :: "('a::finite) heap"
  shows "stableStringify h (Sym (Symbol i None)) seen = Inr ''sym:''
       \<and> stableStringify h (Sym (Symbol j (Some []))) seen = Inr ''sym:''
       \<and> keyLabel (SymbolKey (Symbol i None)) = ''keysym:''
       \<and> keyLabel (SymbolKey (Symbol j (Some []))) = ''keysym:''"
  by (simp add: description_or_empty_def)

lemma stringify_begins_with_tag:
  assumes "stableStringify h v seen = Inr s"
  shows "\<exists>r. s = tag (kind_of h v) @ r"
proof (cases v)
  case (Num n)
  with assms show ?thesis by (cases "isNaN n") auto
next
  case (Bool b)
  with assms show ?thesis by (cases b) auto
next
  case (Date d)
  with assms show ?thesis by (cases d) auto
next
  case (TypedArray c arr)
  with assms show ?thesis by (auto simp: Let_def)
next
  case (Ref a)
  from assms have "a \<notin> seen" unfolding Ref by (rule stringify_ok_not_seen)
  with assms Ref obtain ss where s: "s = render (h a) ss"
    by (auto simp: stringify_Ref split: sum.splits)
  show ?thesis unfolding s Ref by (cases "h a") (simp_all add: render_def)
qed (use assms in auto)

lemma tag_not_prefix: "k \<noteq> k' \<Longrightarrow> tag k @ r \<noteq> tag k' @ r'"
  by (cases k; cases k'; simp)

lemma stringify_nonempty: "stableStringify h v seen = Inr s \<Longrightarrow> s \<noteq> []"
  using stringify_begins_with_tag [of h v seen s] by (cases "kind_of h v") auto

text \<open>
  C8. Two values of different kinds never serialize to the same string: the output of
  each kind begins with the tag or bracket of that kind, and no tag is a prefix of the
  output of another kind. In particular \<^verbatim>\<open>1\<close> and \<^verbatim>\<open>"1"\<close>, and \<^verbatim>\<open>["todos"]\<close> and
  \<^verbatim>\<open>"todos"\<close>, serialize differently.
\<close>

theorem different_kinds_serialize_differently:
  fixes h :: "('a::finite) heap"
  assumes "kind_of h v \<noteq> kind_of h w"
    and "stableStringify h v seen = Inr s"
    and "stableStringify h w seen' = Inr t"
  shows "s \<noteq> t \<and> (\<exists>r. s = tag (kind_of h v) @ r) \<and> (\<exists>r. t = tag (kind_of h w) @ r)"
proof -
  from stringify_begins_with_tag [OF assms(2)] obtain r where r: "s = tag (kind_of h v) @ r" ..
  from stringify_begins_with_tag [OF assms(3)] obtain r' where r': "t = tag (kind_of h w) @ r'" ..
  from tag_not_prefix [OF assms(1)] r r' show ?thesis by blast
qed

theorem different_kinds_serialize_differently_witness:
  "kind_of todos (Num (Finite 1)) \<noteq> kind_of todos (Str ''1'')
   \<and> stableStringify todos (Num (Finite 1)) {} = Inr ''num:1''
   \<and> stableStringify todos (Str ''1'') {} = Inr (''str:'' @ [CHR 0x22] @ ''1'' @ [CHR 0x22])
   \<and> ''num:1'' \<noteq> ''str:'' @ [CHR 0x22] @ ''1'' @ [CHR 0x22]
   \<and> kind_of todos (Ref True) \<noteq> kind_of todos (Str ''todos'')
   \<and> stableStringify todos (Ref True) {} = Inr (''[str:'' @ [CHR 0x22] @ ''todos'' @ [CHR 0x22] @ '']'')
   \<and> stableStringify todos (Str ''todos'') {} = Inr (''str:'' @ [CHR 0x22] @ ''todos'' @ [CHR 0x22])
   \<and> ''[str:'' @ [CHR 0x22] @ ''todos'' @ [CHR 0x22] @ '']'' \<noteq> ''str:'' @ [CHR 0x22] @ ''todos'' @ [CHR 0x22]"
proof -
  have k1: "kind_of todos (Num (Finite 1)) \<noteq> kind_of todos (Str ''1'')" by simp
  have n: "stableStringify todos (Num (Finite 1)) {} = Inr ''num:1''"
    by (simp add: int_to_string_def digits.simps digit_char_def)
  have s: "stableStringify todos (Str ''1'') {} = Inr (''str:'' @ [CHR 0x22] @ ''1'' @ [CHR 0x22])"
    by (simp add: json_stringify_def json_escape_def)
  have k2: "kind_of todos (Ref True) \<noteq> kind_of todos (Str ''todos'')" by (simp add: todos_def)
  have a: "stableStringify todos (Ref True) {} = Inr (''[str:'' @ [CHR 0x22] @ ''todos'' @ [CHR 0x22] @ '']'')"
    by (simp add: stableStringify.simps(12) todos_def json_stringify_def json_escape_def)
  have t: "stableStringify todos (Str ''todos'') {} = Inr (''str:'' @ [CHR 0x22] @ ''todos'' @ [CHR 0x22])"
    by (simp add: json_stringify_def json_escape_def)
  from different_kinds_serialize_differently [OF k1 n s]
       different_kinds_serialize_differently [OF k2 a t] k1 n s k2 a t
  show ?thesis by simp
qed

section \<open>The serializer: delimited forms\<close>

lemma join_Cons: "join sep (x # xs) = x @ (if xs = [] then [] else sep @ join sep xs)"
  by (cases xs) simp_all

lemma first_form_plain:
  "set s \<inter> special = {} \<Longrightarrow> first_form Outside d (s @ r) = s @ first_form Outside d r"
  by (induction s) (auto simp: special_def)

lemma transparent_plain: "plain_text s \<Longrightarrow> transparent s"
  by (simp add: transparent_def plain_text_def first_form_plain)

lemma plain_text_append: "plain_text (s @ t) \<longleftrightarrow> plain_text s \<and> plain_text t"
  by (auto simp: plain_text_def)

lemma plain_text_subset: "set s \<subseteq> A \<Longrightarrow> A \<inter> special = {} \<Longrightarrow> plain_text s"
  by (auto simp: plain_text_def)

lemma transparent_enclosed: "transparent s \<Longrightarrow> enclosed s"
  by (simp add: transparent_def enclosed_def)

lemma transparent_Nil: "transparent []"
  by (simp add: transparent_def)

lemma transparent_append: "transparent s \<Longrightarrow> transparent t \<Longrightarrow> transparent (s @ t)"
  by (simp add: transparent_def)

lemma enclosed_append: "enclosed s \<Longrightarrow> enclosed t \<Longrightarrow> enclosed (s @ t)"
  by (simp add: enclosed_def)

lemma enclosed_comma: "enclosed '',''"
  by (simp add: enclosed_def)

lemma enclosed_join: "\<forall>x \<in> set xs. enclosed x \<Longrightarrow> enclosed (join '','' xs)"
proof (induction xs)
  case Nil
  show ?case by (simp add: enclosed_def)
next
  case (Cons x xs)
  from Cons.prems have x: "enclosed x" and rest: "enclosed (join '','' xs)"
    using Cons.IH by simp_all
  show ?case
  proof (cases "xs = []")
    case True
    with x show ?thesis by simp
  next
    case False
    from enclosed_append [OF x enclosed_append [OF enclosed_comma rest]] False
    show ?thesis by (simp only: join_Cons if_False)
  qed
qed

lemma transparent_brackets:
  assumes "enclosed s"
  shows "transparent (''['' @ s @ '']'')" and "transparent (''{'' @ s @ ''}'')"
    and "transparent (''map:{'' @ s @ ''}'')" and "transparent (''set:['' @ s @ '']'')"
  using assms by (simp_all add: transparent_def enclosed_def)

lemma hex_digit_plain: "k < 16 \<Longrightarrow> hex_digit k \<noteq> CHR 0x22 \<and> hex_digit k \<noteq> CHR 0x5C"
proof -
  assume "k < 16"
  then have "hex_digit k \<in> set ''0123456789abcdef''"
    unfolding hex_digit_def by (intro nth_mem) simp
  then show ?thesis by auto
qed

lemma first_form_escape:
  "first_form Inside d (json_escape c @ r) = json_escape c @ first_form Inside d r"
proof (cases "c = CHR 0x22 \<or> c = CHR 0x5C \<or> c = CHR 0x08 \<or> c = CHR 0x0C \<or> c = CHR 0x0A
    \<or> c = CHR 0x0D \<or> c = CHR 0x09")
  case True
  then show ?thesis by (auto simp: json_escape_def)
next
  case False
  show ?thesis
  proof (cases "(of_char c :: nat) < 32")
    case True
    with False have e: "json_escape c = [CHR 0x5C, CHR ''u'', CHR ''0'', CHR ''0'',
        hex_digit ((of_char c :: nat) div 16), hex_digit ((of_char c :: nat) mod 16)]"
      by (simp add: json_escape_def)
    from True have "(of_char c :: nat) div 16 < 16" by simp
    from hex_digit_plain [OF this]
    have a: "hex_digit ((of_char c :: nat) div 16) \<noteq> CHR 0x22"
      "hex_digit ((of_char c :: nat) div 16) \<noteq> CHR 0x5C" by simp_all
    have "(of_char c :: nat) mod 16 < 16" by simp
    from hex_digit_plain [OF this]
    have b: "hex_digit ((of_char c :: nat) mod 16) \<noteq> CHR 0x22"
      "hex_digit ((of_char c :: nat) mod 16) \<noteq> CHR 0x5C" by simp_all
    show ?thesis unfolding e using a b by simp
  next
    case notctl: False
    with False have e: "json_escape c = [c]" by (simp add: json_escape_def)
    from False show ?thesis unfolding e by simp
  qed
qed

lemma first_form_escapes:
  "first_form Inside d (concat (map json_escape s) @ r) =
   concat (map json_escape s) @ first_form Inside d r"
  by (induction s) (simp_all add: first_form_escape)

lemma transparent_json: "transparent (json_stringify s)"
  by (simp add: transparent_def json_stringify_def first_form_escapes)

lemma digit_char_plain:
  assumes "k < 10"
  shows "digit_char k \<notin> special" and "digit_char k \<in> set ''0123456789-NI''"
proof -
  from assms have "digit_char k \<in> set ''0123456789''"
    unfolding digit_char_def by (intro nth_mem) simp
  then show "digit_char k \<notin> special" and "digit_char k \<in> set ''0123456789-NI''"
    by (auto simp: special_def)
qed

lemma number_start_iff: "number_start s \<longleftrightarrow> s \<noteq> [] \<and> hd s \<in> set ''0123456789-NI''"
  by (cases s) (simp_all add: number_start_def)

lemma number_start_append: "number_start s \<Longrightarrow> number_start (s @ r)"
  by (cases s) (simp_all add: number_start_def)

lemma plain_text_Cons: "plain_text (c # s) \<longleftrightarrow> c \<notin> special \<and> plain_text s"
  by (auto simp: plain_text_def)

lemma plain_text_Nil: "plain_text []"
  by (simp add: plain_text_def)

lemma digits_plain: "plain_text (digits n) \<and> number_start (digits n)"
proof (induction n rule: digits.induct)
  case (1 n)
  show ?case
  proof (cases "n < 10")
    case True
    have d: "digits n = [digit_char n]" using True by (simp add: digits.simps [of n])
    from digit_char_plain [OF True] show ?thesis
      unfolding d by (simp only: plain_text_Cons plain_text_Nil number_start_iff list.sel) simp
  next
    case False
    have d: "digits n = digits (n div 10) @ [digit_char (n mod 10)]"
      using False by (simp add: digits.simps [of n])
    have "n mod 10 < 10" by simp
    from digit_char_plain(1) [OF this] have "plain_text [digit_char (n mod 10)]"
      by (simp add: plain_text_Cons plain_text_Nil)
    with 1 [OF False] show ?thesis
      unfolding d by (simp only: plain_text_append number_start_append)
  qed
qed

lemma int_to_string_plain: "plain_text (int_to_string i) \<and> number_start (int_to_string i)"
proof (cases "i < 0")
  case True
  then have d: "int_to_string i = CHR ''-'' # digits (nat (- i))" by (simp add: int_to_string_def)
  have "CHR ''-'' \<notin> special" by (simp add: special_def)
  with digits_plain [of "nat (- i)"] show ?thesis
    unfolding d by (simp add: plain_text_Cons number_start_def)
next
  case False
  then have d: "int_to_string i = digits (nat i)" by (simp add: int_to_string_def)
  from digits_plain [of "nat i"] show ?thesis unfolding d .
qed

lemma number_plain: "plain_text (number_to_string n) \<and> number_start (number_to_string n)"
proof (cases n)
  case (Finite i)
  with int_to_string_plain [of i] show ?thesis by simp
qed (simp_all add: plain_text_Cons plain_text_Nil special_def number_start_def)
lemma first_form_numbers:
  "first_form Outside d (join '','' (map number_to_string arr) @ r) =
   join '','' (map number_to_string arr) @ first_form Outside d r"
proof (induction arr)
  case Nil
  show ?case by simp
next
  case (Cons n arr)
  from number_plain [of n]
  have n: "first_form Outside d (number_to_string n @ r') = number_to_string n @ first_form Outside d r'" for r'
    by (simp add: plain_text_def first_form_plain)
  show ?case
  proof (cases arr)
    case Nil
    with n show ?thesis by simp
  next
    case (Cons m arr')
    from number_plain [of m]
    have "number_start (number_to_string m @ r')" for r' by (simp add: number_start_append)
    then have s: "number_start (join '','' (map number_to_string arr) @ r)"
      unfolding Cons list.map join_Cons by simp
    have j: "join '','' (map number_to_string (n # arr)) = number_to_string n @ '','' @ join '','' (map number_to_string arr)"
      unfolding Cons by simp
    have "first_form Outside d (join '','' (map number_to_string (n # arr)) @ r)
        = number_to_string n @ first_form Outside d (CHR '','' # join '','' (map number_to_string arr) @ r)"
      unfolding j using n [of "'','' @ join '','' (map number_to_string arr) @ r"] by simp
    also have "first_form Outside d (CHR '','' # join '','' (map number_to_string arr) @ r)
        = CHR '','' # first_form Outside d (join '','' (map number_to_string arr) @ r)"
      using s by simp
    also note Cons.IH
    finally show ?thesis unfolding j by simp
  qed
qed

lemma balanced_first_form:
  "balanced m k s \<Longrightarrow> first_form m (k + d) (s @ r) = s @ first_form Outside d r"
proof (induction s arbitrary: m k)
  case Nil
  then show ?case by simp
next
  case (Cons c s)
  show ?case
  proof (cases m)
    case Outside
    consider "c = CHR 0x22" | "c = CHR ''['' \<or> c = CHR ''{''" | "c = CHR '']'' \<or> c = CHR ''}''"
      | "c = CHR '',''"
      | "c \<noteq> CHR 0x22" "c \<noteq> CHR ''[''" "c \<noteq> CHR ''{''" "c \<noteq> CHR '']''" "c \<noteq> CHR ''}''" "c \<noteq> CHR '',''"
      by blast
    then show ?thesis
    proof cases
      case 1
      with Cons.prems Outside have "balanced Inside k s" by simp
      from Cons.IH [OF this] 1 Outside show ?thesis by simp
    next
      case 2
      with Cons.prems Outside have "balanced Outside (Suc k) s" by auto
      from Cons.IH [OF this] 2 Outside show ?thesis by auto
    next
      case 3
      with Cons.prems Outside have k: "k \<noteq> 0" and "balanced Outside (k - 1) s" by auto
      from Cons.IH [OF this(2)] k have "first_form Outside (k + d - 1) (s @ r) = s @ first_form Outside d r"
        by simp
      with 3 k Outside show ?thesis by auto
    next
      case 4
      with Cons.prems Outside have k: "k \<noteq> 0" and "balanced Outside k s" by auto
      from Cons.IH [OF this(2)] 4 k Outside show ?thesis by simp
    next
      case 5
      with Cons.prems Outside have "balanced Outside k s" by simp
      from Cons.IH [OF this] 5 Outside show ?thesis by simp
    qed
  next
    case Inside
    consider "c = CHR 0x5C" | "c = CHR 0x22" | "c \<noteq> CHR 0x5C" "c \<noteq> CHR 0x22" by blast
    then show ?thesis
    proof cases
      case 1
      with Cons.prems Inside have "balanced Escaped k s" by simp
      from Cons.IH [OF this] 1 Inside show ?thesis by simp
    next
      case 2
      with Cons.prems Inside have "balanced Outside k s" by simp
      from Cons.IH [OF this] 2 Inside show ?thesis by simp
    next
      case 3
      with Cons.prems Inside have "balanced Inside k s" by simp
      from Cons.IH [OF this] 3 Inside show ?thesis by simp
    qed
  next
    case Escaped
    with Cons.prems have "balanced Inside k s" by simp
    from Cons.IH [OF this] Escaped show ?thesis by simp
  qed
qed

lemma well_nested_transparent: "well_nested s \<Longrightarrow> transparent s"
  using balanced_first_form [where m = Outside and k = 0 and s = s]
  by (simp add: well_nested_def transparent_def)


lemma plain_literals:
  "plain_text ''null''" "plain_text ''str:''" "plain_text ''num:''" "plain_text ''bool:''"
  "plain_text ''bigint:''" "plain_text ''undef''" "plain_text ''sym:''" "plain_text ''fn:''"
  "plain_text ''date:''" "plain_text ''date:invalid''" "plain_text ''regexp:''"
  "plain_text ''typed:''" "plain_text ''obj:''" "plain_text '':''" "plain_text ''=>''"
  "plain_text ''key:''" "plain_text ''keysym:''" "plain_text ''anonymous''"
  "plain_text ''0''" "plain_text ''1''"
  by (simp_all add: plain_text_Cons plain_text_Nil special_def)

lemma transparent_tagged: "plain_text p \<Longrightarrow> transparent s \<Longrightarrow> transparent (p @ s)"
  by (simp add: transparent_append transparent_plain)

lemma value_form_transparent:
  fixes h :: "('a::finite) heap"
  assumes "delimited_value v" and "\<forall>a. v \<noteq> Ref a" and "stableStringify h v seen = Inr s"
  shows "transparent s"
proof (cases v)
  case Null
  with assms(3) have "s = ''null''" by simp
  then show ?thesis by (simp only: transparent_plain plain_literals)
next
  case (Str x)
  with assms(3) have "s = ''str:'' @ json_stringify x" by simp
  then show ?thesis
    by (simp only: transparent_append transparent_plain plain_literals transparent_json)
next
  case (Num n)
  with assms(3) have "s = ''num:'' @ number_to_string n" by (cases n) simp_all
  then show ?thesis
    by (simp only: transparent_plain plain_text_append plain_literals number_plain)
next
  case (Bool b)
  with assms(3) have "s = ''bool:'' @ (if b then ''1'' else ''0'')" by simp
  then show ?thesis
    by (cases b) (simp_all only: transparent_plain plain_text_append plain_literals if_True if_False)
next
  case (BigInt i)
  with assms(3) have "s = ''bigint:'' @ int_to_string i" by simp
  then show ?thesis
    by (simp only: transparent_plain plain_text_append plain_literals int_to_string_plain)
next
  case Undefined
  with assms(3) have "s = ''undef''" by simp
  then show ?thesis by (simp only: transparent_plain plain_literals)
next
  case (Sym x)
  with assms(3) have s: "s = ''sym:'' @ description_or_empty x" by simp
  from assms(1) Sym have t: "transparent (description_or_empty x)"
    by (simp add: well_nested_transparent)
  show ?thesis unfolding s by (rule transparent_tagged [OF _ t]) (rule plain_literals)
next
  case (Function name)
  from assms(1) Function have p: "transparent name" by (simp add: well_nested_transparent)
  show ?thesis
  proof (cases "name = []")
    case True
    with assms(3) Function have "s = ''fn:'' @ ''anonymous''" by simp
    then show ?thesis by (simp only: transparent_plain plain_text_append plain_literals)
  next
    case False
    with assms(3) Function have s: "s = ''fn:'' @ name" by simp
    show ?thesis unfolding s by (rule transparent_tagged [OF _ p]) (rule plain_literals)
  qed
next
  case (Date t)
  show ?thesis
  proof (cases t)
    case None
    with assms(3) Date have "s = ''date:invalid''" by simp
    then show ?thesis by (simp only: transparent_plain plain_literals)
  next
    case (Some isoString)
    with assms(3) Date have s: "s = ''date:'' @ isoString" by simp
    from assms(1) Date Some have t: "transparent isoString" by (simp add: well_nested_transparent)
    show ?thesis unfolding s by (rule transparent_tagged [OF _ t]) (rule plain_literals)
  qed
next
  case (RegExp x)
  with assms(3) have s: "s = ''regexp:'' @ x" by simp
  from assms(1) RegExp have t: "transparent x" by (simp add: well_nested_transparent)
  show ?thesis unfolding s by (rule transparent_tagged [OF _ t]) (rule plain_literals)
next
  case (TypedArray c arr)
  define ctor where "ctor = (case c of None \<Rightarrow> ''TypedArray'' | Some n \<Rightarrow> n)"
  from assms(3) TypedArray
  have s: "s = ''typed:'' @ ctor @ '':'' @ join '','' (map number_to_string arr)"
    by (simp add: ctor_def Let_def)
  from assms(1) TypedArray have c: "transparent ctor" by (simp add: ctor_def well_nested_transparent)
  have j: "transparent (join '','' (map number_to_string arr))"
    by (simp only: transparent_def first_form_numbers) simp
  have "transparent ('':'' @ join '','' (map number_to_string arr))"
    by (rule transparent_tagged [OF _ j]) (rule plain_literals)
  with c have t: "transparent (ctor @ '':'' @ join '','' (map number_to_string arr))"
    by (rule transparent_append)
  show ?thesis unfolding s by (rule transparent_tagged [OF _ t]) (rule plain_literals)
next
  case (Ref a)
  with assms(2) show ?thesis by simp
next
  case (Exotic t)
  with assms(3) have s: "s = ''obj:'' @ t" by simp
  from assms(1) Exotic have t: "transparent t" by (simp add: well_nested_transparent)
  show ?thesis unfolding s by (rule transparent_tagged [OF _ t]) (rule plain_literals)
qed

lemma set_fill: "x \<in> set (fill slots ss) \<Longrightarrow> x = [] \<or> x \<in> set ss"
  by (induction slots ss rule: fill.induct) auto

lemma set_pairs: "kv \<in> set (pairs ss) \<Longrightarrow> fst kv \<in> set ss \<and> snd kv \<in> set ss"
  by (induction ss rule: pairs.induct) auto

lemma keyLabel_transparent:
  assumes "\<forall>x. k = SymbolKey x \<longrightarrow> well_nested (description_or_empty x)"
  shows "transparent (keyLabel k)"
proof (cases k)
  case (StringKey x)
  then show ?thesis
    by (simp only: keyLabel.simps transparent_append transparent_plain plain_literals transparent_json)
next
  case (SymbolKey x)
  with assms have t: "transparent (description_or_empty x)" by (simp add: well_nested_transparent)
  show ?thesis unfolding SymbolKey keyLabel.simps
    by (rule transparent_tagged [OF _ t]) (rule plain_literals)
qed

lemma render_transparent:
  assumes "delimited_object obj" and "\<forall>s \<in> set ss. transparent s"
  shows "transparent (render obj ss)"
proof (cases obj)
  case (Array slots)
  have r: "render obj ss = ''['' @ join '','' (fill slots ss) @ '']''"
    by (simp add: Array render_def)
  have "enclosed x" if "x \<in> set (fill slots ss)" for x
  proof -
    from set_fill [OF that] assms(2) transparent_Nil have "transparent x" by blast
    then show ?thesis by (rule transparent_enclosed)
  qed
  then have "enclosed (join '','' (fill slots ss))" by (intro enclosed_join) simp
  then show ?thesis unfolding r by (rule transparent_brackets(1))
next
  case (MapObj es)
  have r: "render obj ss =
      ''map:{'' @ join '','' (map (\<lambda>kv. fst kv @ '':'' @ snd kv) (sort_key fst (pairs ss))) @ ''}''"
    by (simp add: MapObj render_def)
  have "enclosed (fst kv @ '':'' @ snd kv)" if "kv \<in> set (pairs ss)" for kv
  proof -
    from set_pairs [OF that] assms(2) have "transparent (fst kv)" "transparent (snd kv)" by simp_all
    then have "transparent (fst kv @ '':'' @ snd kv)"
      by (simp only: transparent_append transparent_plain plain_literals)
    then show ?thesis by (rule transparent_enclosed)
  qed
  then have "enclosed (join '','' (map (\<lambda>kv. fst kv @ '':'' @ snd kv) (sort_key fst (pairs ss))))"
    by (intro enclosed_join) simp
  then show ?thesis unfolding r by (rule transparent_brackets(3))
next
  case (SetObj vs)
  have r: "render obj ss = ''set:['' @ join '','' (sort ss) @ '']''"
    by (simp add: SetObj render_def)
  from assms(2) have "enclosed (join '','' (sort ss))"
    by (intro enclosed_join) (simp add: transparent_enclosed)
  then show ?thesis unfolding r by (rule transparent_brackets(4))
next
  case (PlainObject props symprops)
  have r: "render obj ss =
      ''{'' @ join '','' (map2 (\<lambda>k s. keyLabel k @ ''=>'' @ s) (ownKeysSorted props symprops) ss) @ ''}''"
    by (simp add: PlainObject render_def)
  from assms(1) PlainObject
  have sym: "\<forall>x \<in> set (map fst symprops). well_nested (description_or_empty x)"
    by (simp add: delimited_object_def list_all_iff)
  have key: "transparent (keyLabel k)" if "k \<in> set (ownKeysSorted props symprops)" for k
  proof (rule keyLabel_transparent, intro allI impI)
    fix x assume "k = SymbolKey x"
    with that have "x \<in> set (map fst symprops)" by (auto simp: ownKeysSorted_def Let_def)
    with sym show "well_nested (description_or_empty x)" by blast
  qed
  have "enclosed x"
    if "x \<in> set (map2 (\<lambda>k s. keyLabel k @ ''=>'' @ s) (ownKeysSorted props symprops) ss)" for x
  proof -
    from that obtain k s where ks: "(k, s) \<in> set (zip (ownKeysSorted props symprops) ss)"
      and x: "x = keyLabel k @ ''=>'' @ s" by auto
    from ks have "k \<in> set (ownKeysSorted props symprops)" "s \<in> set ss"
      by (auto dest: set_zip_leftD set_zip_rightD)
    with key assms(2) have "transparent (keyLabel k)" "transparent s" by simp_all
    then have "transparent x" unfolding x
      by (simp only: transparent_append transparent_plain plain_literals)
    then show ?thesis by (rule transparent_enclosed)
  qed
  then have "enclosed (join '','' (map2 (\<lambda>k s. keyLabel k @ ''=>'' @ s) (ownKeysSorted props symprops) ss))"
    by (intro enclosed_join) simp
  then show ?thesis unfolding r by (rule transparent_brackets(2))
qed

lemma delimited_child:
  assumes "delimited h (Ref a)" and "c \<in> set (children (h a))"
  shows "delimited h c"
proof -
  from assms(1) have "delimited_object (h a)" by (simp add: delimited_def)
  with assms(2) have v: "delimited_value c" by (simp add: delimited_object_def list_all_iff)
  have "delimited_object (h b)" if r: "reaches h c b" for b
  proof -
    from reaches_is_Ref [OF r] obtain c' where c': "c = Ref c'" by blast
    with assms(2) have "(a, c') \<in> edges h" by (simp add: edges_def)
    with r c' have "(a, b) \<in> (edges h)\<^sup>*" by (auto intro: converse_rtrancl_into_rtrancl)
    with assms(1) show ?thesis by (simp add: delimited_def)
  qed
  with v show ?thesis by (simp add: delimited_def)
qed

lemma form_transparent:
  fixes seen :: "('a::finite) set"
  shows "delimited h v \<Longrightarrow> stableStringify h v seen = Inr s \<Longrightarrow> transparent s"
proof (induction "card (UNIV - seen)" arbitrary: seen v s rule: less_induct)
  case less
  show ?case
  proof (cases "\<exists>a. v = Ref a")
    case True
    then obtain a where v: "v = Ref a" ..
    from less.prems(2) have a: "a \<notin> seen" unfolding v by (rule stringify_ok_not_seen)
    with less.prems(2) v obtain ss where
      ss: "sequence (map (\<lambda>c. stableStringify h c (insert a seen)) (children (h a))) = Inr ss"
      and s: "s = render (h a) ss"
      by (auto simp: stringify_Ref split: sum.splits)
    from ss have m: "map (\<lambda>c. stableStringify h c (insert a seen)) (children (h a)) = map Inr ss"
      by (simp only: sequence_Inr_iff)
    have "transparent u" if "u \<in> set ss" for u
    proof -
      from that obtain i where i: "i < length ss" "ss ! i = u" by (auto simp: in_set_conv_nth)
      from map_Inr_nth [OF m i(1)] i(2)
      have c: "stableStringify h (children (h a) ! i) (insert a seen) = Inr u"
        and mem: "children (h a) ! i \<in> set (children (h a))" by simp_all
      from delimited_child [OF less.prems(1) [unfolded v] mem]
      have "delimited h (children (h a) ! i)" .
      from less.hyps [OF card_unseen_less [OF a] this c] show ?thesis .
    qed
    moreover from less.prems(1) v have "delimited_object (h a)" by (simp add: delimited_def)
    ultimately show ?thesis unfolding s by (intro render_transparent) simp_all
  next
    case False
    from less.prems(1) have "delimited_value v" by (simp add: delimited_def)
    from value_form_transparent [OF this _ less.prems(2)] False show ?thesis by simp
  qed
qed

lemma form_not_number: "stableStringify h v seen = Inr s \<Longrightarrow> \<not> number_start s"
proof -
  assume "stableStringify h v seen = Inr s"
  from stringify_begins_with_tag [OF this] obtain r where "s = tag (kind_of h v) @ r" ..
  then show ?thesis by (cases "kind_of h v") (simp_all add: number_start_def)
qed

lemma join_not_number: "\<forall>x \<in> set xs. \<not> number_start x \<Longrightarrow> \<not> number_start (join '','' xs)"
proof (cases xs)
  case Nil
  then show ?thesis by (simp add: number_start_def)
next
  case (Cons x xs')
  assume "\<forall>x \<in> set xs. \<not> number_start x"
  with Cons have "\<not> number_start x" by simp
  then show ?thesis unfolding Cons join_Cons
    by (cases x) (simp_all add: number_start_def)
qed

lemma join_forms_inj:
  assumes "length xs = length ys"
    and "\<forall>x \<in> set xs \<union> set ys. transparent x \<and> \<not> number_start x"
    and "join '','' xs = join '','' ys"
  shows "xs = ys"
  using assms
proof (induction xs ys rule: list_induct2)
  case Nil
  show ?case by simp
next
  case (Cons x xs y ys)
  from Cons.prems(1) have tx: "transparent x" and ty: "transparent y" by simp_all
  show ?case
  proof (cases "xs = []")
    case True
    with Cons.hyps have "ys = []" by simp
    with True Cons.prems(2) show ?thesis by simp
  next
    case False
    with Cons.hyps have ne: "ys \<noteq> []" by auto
    from Cons.prems(1) have "\<not> number_start (join '','' xs)" "\<not> number_start (join '','' ys)"
      by (simp_all add: join_not_number)
    then have stop: "first_form Outside 0 ('','' @ join '','' xs) = []"
      "first_form Outside 0 ('','' @ join '','' ys) = []" by simp_all
    from Cons.prems(2) False ne
    have eq: "x @ '','' @ join '','' xs = y @ '','' @ join '','' ys" by (simp add: join_Cons)
    then have "first_form Outside 0 (x @ '','' @ join '','' xs)
             = first_form Outside 0 (y @ '','' @ join '','' ys)" by simp
    with tx ty stop have xy: "x = y" by (simp only: transparent_def append_Nil2)
    with eq have "join '','' xs = join '','' ys" by simp
    with Cons.IH Cons.prems(1) have "xs = ys" by simp
    with xy show ?thesis by simp
  qed
qed

lemma stringify_array:
  fixes h :: "('a::finite) heap"
  assumes "h a = Array xs" "stableStringify h (Ref a) {} = Inr s"
  shows "\<exists>ss. map (slot_form h) xs = map Inr ss \<and> s = ''['' @ join '','' ss @ '']''"
proof -
  from assms obtain ss where
    ss: "sequence (map (\<lambda>slot. case slot of None \<Rightarrow> Inr [] | Some v \<Rightarrow> stableStringify h v {a}) xs) = Inr ss"
    and s: "s = ''['' @ join '','' ss @ '']''"
    by (auto simp: stableStringify.simps(12) split: sum.splits)
  from ss have m: "map (\<lambda>slot. case slot of None \<Rightarrow> Inr [] | Some v \<Rightarrow> stableStringify h v {a}) xs = map Inr ss"
    by (simp only: sequence_Inr_iff)
  have "slot_form h slot = (case slot of None \<Rightarrow> Inr [] | Some v \<Rightarrow> stableStringify h v {a})"
    if "slot \<in> set xs" for slot
  proof (cases slot)
    case None
    then show ?thesis by (simp add: slot_form_def)
  next
    case (Some v)
    from map_Inr_elem [OF m that] Some obtain t where t: "stableStringify h v {a} = Inr t" by auto
    from stringify_seen_irrelevant [OF t, of "{}"] t Some show ?thesis by (simp add: slot_form_def)
  qed
  then have "map (slot_form h) xs
      = map (\<lambda>slot. case slot of None \<Rightarrow> Inr [] | Some v \<Rightarrow> stableStringify h v {a}) xs"
    by simp
  with m s show ?thesis by auto
qed

lemma slot_forms_delimited:
  fixes h :: "('a::finite) heap"
  assumes "h a = Array xs" and "delimited h (Ref a)" and "map (slot_form h) xs = map Inr ss"
    and "u \<in> set ss"
  shows "transparent u \<and> \<not> number_start u"
proof -
  from assms(4) obtain i where i: "i < length ss" "ss ! i = u" by (auto simp: in_set_conv_nth)
  from map_Inr_nth [OF assms(3) i(1)] i(2)
  have f: "slot_form h (xs ! i) = Inr u" and mem: "xs ! i \<in> set xs" by simp_all
  show ?thesis
  proof (cases "xs ! i")
    case None
    with f have "u = []" by (simp add: slot_form_def)
    then show ?thesis by (simp add: transparent_Nil number_start_def)
  next
    case (Some v)
    with f have v: "stableStringify h v {} = Inr u" by (simp add: slot_form_def)
    from mem Some assms(1) have "v \<in> set (children (h a))" by (force simp: children_def)
    from delimited_child [OF assms(2) this] have "delimited h v" .
    from form_transparent [OF this v] form_not_number [OF v] show ?thesis ..
  qed
qed

text \<open>
  C9, as amended. The claim does not hold of every pair of sequences: the serializer
  copies the description of a symbol into the output as it is, and two sequences of
  distinct symbols in different orders serialize to the same string.

  It holds of delimited values: strings, numbers, booleans, big integers, \<^verbatim>\<open>null\<close>,
  \<^verbatim>\<open>undefined\<close>, typed arrays, and arrays (holes included), Maps, Sets and plain objects
  nested to any depth, together with symbols, functions, dates, regular expressions and
  other objects whose printed text is well nested: its double quotes pair up, its
  brackets and braces balance and it has no comma outside them. Two such sequences of the same length (in particular two that hold the same elements in
  different orders) serialize to the same string exactly when they hold equal serialized
  forms at every position; the elements are serialized in their positions and joined
  with commas inside brackets.
\<close>

theorem array_order_is_significant:
  fixes h :: "('a::finite) heap"
  assumes "h a = Array xs" and "h b = Array ys" and "length xs = length ys"
    and "delimited h (Ref a)" and "delimited h (Ref b)"
    and "stableStringify h (Ref a) {} = Inr s" and "stableStringify h (Ref b) {} = Inr t"
  shows "(s = t \<longleftrightarrow> map (slot_form h) xs = map (slot_form h) ys)
       \<and> (\<exists>ss. map (slot_form h) xs = map Inr ss \<and> s = ''['' @ join '','' ss @ '']'')"
proof -
  from stringify_array [OF assms(1,6)] obtain ss where
    ss: "map (slot_form h) xs = map Inr ss" "s = ''['' @ join '','' ss @ '']''" by blast
  from stringify_array [OF assms(2,7)] obtain ts where
    ts: "map (slot_form h) ys = map Inr ts" "t = ''['' @ join '','' ts @ '']''" by blast
  from ss(1) have "length xs = length ss" by (rule map_eq_imp_length_eq)
  moreover from ts(1) have "length ys = length ts" by (rule map_eq_imp_length_eq)
  ultimately have len: "length ss = length ts" using assms(3) by simp
  from slot_forms_delimited [OF assms(1,4) ss(1)] slot_forms_delimited [OF assms(2,5) ts(1)]
  have "\<forall>u \<in> set ss \<union> set ts. transparent u \<and> \<not> number_start u" by blast
  from join_forms_inj [OF len this] have "join '','' ss = join '','' ts \<longleftrightarrow> ss = ts" by blast
  moreover have "map (Inr :: string \<Rightarrow> error + string) ss = map Inr ts \<longleftrightarrow> ss = ts"
    by (simp add: inj_map_eq_map)
  ultimately have "s = t \<longleftrightarrow> map (slot_form h) xs = map (slot_form h) ys"
    unfolding ss ts by simp
  with ss show ?thesis by blast
qed

theorem array_order_is_significant_witness:
  "letters CHR ''p'' = Array [Some (Ref CHR ''x''), Some (Ref CHR ''y'')]
   \<and> letters CHR ''q'' = Array [Some (Ref CHR ''y''), Some (Ref CHR ''x'')]
   \<and> delimited letters (Ref CHR ''p'') \<and> delimited letters (Ref CHR ''q'')
   \<and> stableStringify letters (Ref CHR ''p'') {} = Inr ''[[num:1,num:2],[num:3,num:4]]''
   \<and> stableStringify letters (Ref CHR ''q'') {} = Inr ''[[num:3,num:4],[num:1,num:2]]''
   \<and> ''[[num:1,num:2],[num:3,num:4]]'' \<noteq> ''[[num:3,num:4],[num:1,num:2]]''
   \<and> letters CHR ''u'' = Array [None, Some (Num (Finite 1))]
   \<and> letters CHR ''v'' = Array [Some (Num (Finite 1)), None]
   \<and> delimited letters (Ref CHR ''u'') \<and> delimited letters (Ref CHR ''v'')
   \<and> stableStringify letters (Ref CHR ''u'') {} = Inr ''[,num:1]''
   \<and> stableStringify letters (Ref CHR ''v'') {} = Inr ''[num:1,]''
   \<and> ''[,num:1]'' \<noteq> ''[num:1,]''
   \<and> letters CHR ''k'' = Array [Some (Str ''a''), Some (Ref CHR ''m'')]
   \<and> letters CHR ''l'' = Array [Some (Str ''a''), Some (Ref CHR ''n'')]
   \<and> delimited letters (Ref CHR ''k'') \<and> delimited letters (Ref CHR ''l'')
   \<and> stableStringify letters (Ref CHR ''k'') {} =
       Inr (''[str:'' @ [CHR 0x22] @ ''a'' @ [CHR 0x22] @ '',[{key:'' @ [CHR 0x22] @ ''b'' @ [CHR 0x22]
            @ ''=>num:1},{key:'' @ [CHR 0x22] @ ''c'' @ [CHR 0x22] @ ''=>[num:2,num:3]}]]'')
   \<and> stableStringify letters (Ref CHR ''l'') {} =
       Inr (''[str:'' @ [CHR 0x22] @ ''a'' @ [CHR 0x22] @ '',[{key:'' @ [CHR 0x22] @ ''c'' @ [CHR 0x22]
            @ ''=>[num:2,num:3]},{key:'' @ [CHR 0x22] @ ''b'' @ [CHR 0x22] @ ''=>num:1}]]'')
   \<and> letters CHR ''g'' = Array [Some (Str ''a,b''), Some (RegExp ''/[a-z]{2,3}/'')]
   \<and> letters CHR ''h'' = Array [Some (RegExp ''/[a-z]{2,3}/''), Some (Str ''a,b'')]
   \<and> delimited letters (Ref CHR ''g'') \<and> delimited letters (Ref CHR ''h'')
   \<and> stableStringify letters (Ref CHR ''g'') {} =
       Inr (''[str:'' @ [CHR 0x22] @ ''a,b'' @ [CHR 0x22] @ '',regexp:/[a-z]{2,3}/]'')
   \<and> stableStringify letters (Ref CHR ''h'') {} =
       Inr (''[regexp:/[a-z]{2,3}/,str:'' @ [CHR 0x22] @ ''a,b'' @ [CHR 0x22] @ '']'')"
proof -
  have n: "int_to_string 1 = ''1''" "int_to_string 2 = ''2''" "int_to_string 3 = ''3''"
    "int_to_string 4 = ''4''"
    by (simp_all add: int_to_string_def digits.simps digit_char_def)
  have o: "delimited_object (letters b)" for b
    by (simp add: letters_def delimited_object_def children_def ownKeysSorted_def well_nested_def)
  have d: "delimited letters (Ref a)" for a
    by (simp add: delimited_def o)
  have p: "letters CHR ''p'' = Array [Some (Ref CHR ''x''), Some (Ref CHR ''y'')]"
    and q: "letters CHR ''q'' = Array [Some (Ref CHR ''y''), Some (Ref CHR ''x'')]"
    and u: "letters CHR ''u'' = Array [None, Some (Num (Finite 1))]"
    and v: "letters CHR ''v'' = Array [Some (Num (Finite 1)), None]"
    and k: "letters CHR ''k'' = Array [Some (Str ''a''), Some (Ref CHR ''m'')]"
    and l: "letters CHR ''l'' = Array [Some (Str ''a''), Some (Ref CHR ''n'')]"
    and g: "letters CHR ''g'' = Array [Some (Str ''a,b''), Some (RegExp ''/[a-z]{2,3}/'')]"
    and h: "letters CHR ''h'' = Array [Some (RegExp ''/[a-z]{2,3}/''), Some (Str ''a,b'')]"
    by (simp_all add: letters_def)
  have sp: "stableStringify letters (Ref CHR ''p'') {} = Inr ''[[num:1,num:2],[num:3,num:4]]''"
    and sq: "stableStringify letters (Ref CHR ''q'') {} = Inr ''[[num:3,num:4],[num:1,num:2]]''"
    and su: "stableStringify letters (Ref CHR ''u'') {} = Inr ''[,num:1]''"
    and sv: "stableStringify letters (Ref CHR ''v'') {} = Inr ''[num:1,]''"
    by (simp_all add: stableStringify.simps(12) letters_def n)
  have sk: "stableStringify letters (Ref CHR ''k'') {} =
       Inr (''[str:'' @ [CHR 0x22] @ ''a'' @ [CHR 0x22] @ '',[{key:'' @ [CHR 0x22] @ ''b'' @ [CHR 0x22]
            @ ''=>num:1},{key:'' @ [CHR 0x22] @ ''c'' @ [CHR 0x22] @ ''=>[num:2,num:3]}]]'')"
    and sl: "stableStringify letters (Ref CHR ''l'') {} =
       Inr (''[str:'' @ [CHR 0x22] @ ''a'' @ [CHR 0x22] @ '',[{key:'' @ [CHR 0x22] @ ''c'' @ [CHR 0x22]
            @ ''=>[num:2,num:3]},{key:'' @ [CHR 0x22] @ ''b'' @ [CHR 0x22] @ ''=>num:1}]]'')"
    by (simp_all add: stableStringify.simps(12) letters_def n ownKeysSorted_def json_stringify_def
        json_escape_def)
  have sg: "stableStringify letters (Ref CHR ''g'') {} =
       Inr (''[str:'' @ [CHR 0x22] @ ''a,b'' @ [CHR 0x22] @ '',regexp:/[a-z]{2,3}/]'')"
    and sh: "stableStringify letters (Ref CHR ''h'') {} =
       Inr (''[regexp:/[a-z]{2,3}/,str:'' @ [CHR 0x22] @ ''a,b'' @ [CHR 0x22] @ '']'')"
    by (simp_all add: stableStringify.simps(12) letters_def json_stringify_def json_escape_def)
  from array_order_is_significant [OF p q _ d d sp sq]
       array_order_is_significant [OF u v _ d d su sv]
       array_order_is_significant [OF k l _ d d sk sl]
       array_order_is_significant [OF g h _ d d sg sh]
       p q u v k l g h d sp sq su sv sk sl sg sh
  show ?thesis by simp
qed

theorem array_order_counterexample:
  "comma_symbols True = Array [Some (Sym (Symbol 0 (Some ''a,sym:a''))), Some (Sym (Symbol 1 (Some ''a'')))]
   \<and> comma_symbols False = Array [Some (Sym (Symbol 1 (Some ''a''))), Some (Sym (Symbol 0 (Some ''a,sym:a'')))]
   \<and> Sym (Symbol 0 (Some ''a,sym:a'')) \<noteq> (Sym (Symbol 1 (Some ''a'')) :: bool jsval)
   \<and> stableStringify comma_symbols (Ref True) {} = Inr ''[sym:a,sym:a,sym:a]''
   \<and> stableStringify comma_symbols (Ref False) {} = Inr ''[sym:a,sym:a,sym:a]''
   \<and> blank_symbols True = Array [Some (Sym (Symbol 0 None)), Some (Sym (Symbol 1 (Some [])))]
   \<and> blank_symbols False = Array [Some (Sym (Symbol 1 (Some []))), Some (Sym (Symbol 0 None))]
   \<and> Sym (Symbol 0 None) \<noteq> (Sym (Symbol 1 (Some [])) :: bool jsval)
   \<and> stableStringify blank_symbols (Ref True) {} = Inr ''[sym:,sym:]''
   \<and> stableStringify blank_symbols (Ref False) {} = Inr ''[sym:,sym:]''"
  by (simp add: stableStringify.simps(12) comma_symbols_def blank_symbols_def description_or_empty_def)

lemma both_Inr_iff: "both (x, y) = Inr p \<longleftrightarrow> x = Inr (fst p) \<and> y = Inr (snd p)"
  by (cases x; cases y; cases p) auto

lemma stringify_map:
  fixes h :: "('a::finite) heap"
  assumes "h a = MapObj es" "stableStringify h (Ref a) {} = Inr s"
  shows "\<exists>kvs. map (\<lambda>e. both (stableStringify h (fst e) {}, stableStringify h (snd e) {})) es = map Inr kvs
           \<and> s = ''map:{'' @ join '','' (map (\<lambda>kv. fst kv @ '':'' @ snd kv) (sort_key fst kvs)) @ ''}''"
proof -
  from assms obtain kvs where
    sq: "sequence (map (\<lambda>e. both (stableStringify h (fst e) {a}, stableStringify h (snd e) {a})) es) = Inr kvs"
    and s: "s = ''map:{'' @ join '','' (map (\<lambda>kv. fst kv @ '':'' @ snd kv) (sort_key fst kvs)) @ ''}''"
    by (auto simp: stableStringify.simps(12) split: sum.splits)
  from sq have m: "map (\<lambda>e. both (stableStringify h (fst e) {a}, stableStringify h (snd e) {a})) es = map Inr kvs"
    by (simp only: sequence_Inr_iff)
  have "both (stableStringify h (fst e) {}, stableStringify h (snd e) {}) =
        both (stableStringify h (fst e) {a}, stableStringify h (snd e) {a})" if "e \<in> set es" for e
  proof -
    from map_Inr_elem [OF m that] obtain p where
      "both (stableStringify h (fst e) {a}, stableStringify h (snd e) {a}) = Inr p" ..
    then have k: "stableStringify h (fst e) {a} = Inr (fst p)" and v: "stableStringify h (snd e) {a} = Inr (snd p)"
      by (simp_all add: both_Inr_iff)
    from stringify_seen_irrelevant [OF k, of "{}"] stringify_seen_irrelevant [OF v, of "{}"] k v
    show ?thesis by simp
  qed
  then have "map (\<lambda>e. both (stableStringify h (fst e) {}, stableStringify h (snd e) {})) es =
             map (\<lambda>e. both (stableStringify h (fst e) {a}, stableStringify h (snd e) {a})) es"
    by simp
  with m s show ?thesis by auto
qed

text \<open>
  C1, as amended. The entries of a Map are serialized key first, ordered by the
  serialized key alone with a stable sort (not by the whole serialized entry), written as
  \<^verbatim>\<open>key:value\<close> and joined with commas inside \<^verbatim>\<open>map:{ }\<close>. For two Maps that hold the
  same entries in different insertion orders: if one of them serializes and the
  serialized keys of its entries are pairwise distinct, the other serializes to the same
  string.
\<close>

theorem map_insertion_order_irrelevant:
  fixes h :: "('a::finite) heap"
  assumes "h a = MapObj es" and "h b = MapObj es'" and "mset es = mset es'"
    and "stableStringify h (Ref a) {} = Inr s"
    and "distinct (map (\<lambda>e. stableStringify h (fst e) {}) es)"
  shows "stableStringify h (Ref b) {} = Inr s
       \<and> (\<exists>kvs. map (\<lambda>e. both (stableStringify h (fst e) {}, stableStringify h (snd e) {})) es = map Inr kvs
              \<and> s = ''map:{'' @ join '','' (map (\<lambda>kv. fst kv @ '':'' @ snd kv) (sort_key fst kvs)) @ ''}'')"
proof -
  let ?F = "\<lambda>e. both (stableStringify h (fst e) {}, stableStringify h (snd e) {})"
  let ?Fb = "\<lambda>e. both (stableStringify h (fst e) {b}, stableStringify h (snd e) {b})"
  let ?G = "\<lambda>e. case ?F e of Inl _ \<Rightarrow> ([], []) | Inr p \<Rightarrow> p"
  from stringify_map [OF assms(1,4)] obtain kvs where
    kvs: "map ?F es = map Inr kvs"
    and s: "s = ''map:{'' @ join '','' (map (\<lambda>kv. fst kv @ '':'' @ snd kv) (sort_key fst kvs)) @ ''}''"
    by blast
  from assms(3) have sets: "set es' = set es" by (rule mset_eq_setD [symmetric])
  have FG: "?F e = Inr (?G e)" if "e \<in> set es" for e
  proof -
    from map_Inr_elem [OF kvs that] obtain p where "?F e = Inr p" ..
    then show ?thesis by simp
  qed
  then have FGm: "map ?F es = map Inr (map ?G es)" by simp
  from kvs FGm have "map (Inr :: _ \<Rightarrow> error + _) kvs = map Inr (map ?G es)" by (simp only:)
  then have kvs_eq: "kvs = map ?G es" by (rule map_injective) (rule inj_Inr)
  have parts: "stableStringify h (fst e) {} = Inr (fst (?G e)) \<and> stableStringify h (snd e) {} = Inr (snd (?G e))"
    if "e \<in> set es" for e
    using FG [OF that] by (simp only: both_Inr_iff)
  have away: "\<not> reaches h c b" if e: "e \<in> set es" and c: "c = fst e \<or> c = snd e" for e c
  proof
    assume r: "reaches h c b"
    from reaches_is_Ref [OF r] obtain c' where c': "c = Ref c'" ..
    from e c c' have "Ref c' \<in> set (children (h a))"
      by (auto simp: children_def assms(1) intro!: bexI [of _ e])
    then have ac: "(a, c') \<in> edges h" by (simp add: edges_def)
    from e c c' sets have "Ref c' \<in> set (children (h b))"
      by (auto simp: children_def assms(2) intro!: bexI [of _ e])
    then have "(b, c') \<in> edges h" by (simp add: edges_def)
    moreover from r c' have "(c', b) \<in> (edges h)\<^sup>*" by simp
    ultimately have "(c', c') \<in> (edges h)\<^sup>+" by (rule rtrancl_into_trancl1 [rotated])
    moreover from ac have "reaches h (Ref a) c'" by auto
    ultimately have "cyclic h (Ref a)" unfolding cyclic_def by blast
    with stringify_ok_acyclic [OF assms(4)] show False ..
  qed
  have Fb: "?Fb e = Inr (?G e)" if "e \<in> set es" for e
  proof -
    from parts [OF that] have k: "stableStringify h (fst e) {} = Inr (fst (?G e))"
      and v: "stableStringify h (snd e) {} = Inr (snd (?G e))" by simp_all
    from away [OF that, of "fst e"] have "\<forall>x. reaches h (fst e) x \<longrightarrow> x \<notin> {b}" by auto
    from stringify_seen_irrelevant [OF k this] have k': "stableStringify h (fst e) {b} = Inr (fst (?G e))" .
    from away [OF that, of "snd e"] have "\<forall>x. reaches h (snd e) x \<longrightarrow> x \<notin> {b}" by auto
    from stringify_seen_irrelevant [OF v this] have v': "stableStringify h (snd e) {b} = Inr (snd (?G e))" .
    from k' v' show ?thesis by (simp only: both_Inr_iff)
  qed
  with sets have "map ?Fb es' = map Inr (map ?G es')" by simp
  then have sq: "sequence (map ?Fb es') = Inr (map ?G es')" by (simp only: sequence_Inr_iff)
  have keys: "map (\<lambda>e. stableStringify h (fst e) {}) es = map Inr (map fst (map ?G es))"
    using parts by simp
  from assms(5) have "distinct (map (Inr :: _ \<Rightarrow> error + _) (map fst (map ?G es)))"
    unfolding keys .
  with distinct_map [of "Inr :: _ \<Rightarrow> error + _" "map fst (map ?G es)"]
  have "distinct (map fst (map ?G es))" by blast
  with distinct_map [of fst "map ?G es"]
  have "inj_on fst (set (map ?G es))" by blast
  moreover from assms(3) have "mset (map ?G es) = mset (map ?G es')" by (simp only: mset_map)
  ultimately have "sort_key fst (map ?G es) = sort_key fst (map ?G es')"
    by (intro sort_key_eq_sort_key)
  with kvs_eq s have "s = ''map:{'' @ join '','' (map (\<lambda>kv. fst kv @ '':'' @ snd kv) (sort_key fst (map ?G es'))) @ ''}''"
    by simp
  with sq assms(2) have "stableStringify h (Ref b) {} = Inr s"
    by (simp add: stableStringify.simps(12))
  with kvs s show ?thesis by blast
qed

theorem map_insertion_order_irrelevant_witness:
  "prefix_keys True = MapObj [(Num (Finite 1), Num (Finite 7)), (Num (Finite 10), Num (Finite 8))]
   \<and> prefix_keys False = MapObj [(Num (Finite 10), Num (Finite 8)), (Num (Finite 1), Num (Finite 7))]
   \<and> stableStringify prefix_keys (Ref True) {} = Inr ''map:{num:1:num:7,num:10:num:8}''
   \<and> stableStringify prefix_keys (Ref False) {} = Inr ''map:{num:1:num:7,num:10:num:8}''"
proof -
  have a: "prefix_keys True = MapObj [(Num (Finite 1), Num (Finite 7)), (Num (Finite 10), Num (Finite 8))]"
    and b: "prefix_keys False = MapObj [(Num (Finite 10), Num (Finite 8)), (Num (Finite 1), Num (Finite 7))]"
    by (simp_all add: prefix_keys_def)
  have m: "mset [(Num (Finite 1), Num (Finite 7)), (Num (Finite 10), Num (Finite 8))]
         = mset ([(Num (Finite 10), Num (Finite 8)), (Num (Finite 1), Num (Finite 7))] :: (bool jsval \<times> bool jsval) list)"
    by (simp add: add_mset_commute)
  have s: "stableStringify prefix_keys (Ref True) {} = Inr ''map:{num:1:num:7,num:10:num:8}''"
    by (simp add: stableStringify.simps(12) a int_to_string_def digits.simps digit_char_def)
  have d: "distinct (map (\<lambda>e. stableStringify prefix_keys (fst e) {})
             [(Num (Finite 1), Num (Finite 7)), (Num (Finite 10), Num (Finite 8))])"
    by (simp add: int_to_string_def digits.simps digit_char_def)
  from map_insertion_order_irrelevant [OF a b m s d] a b s show ?thesis by simp
qed

theorem map_insertion_order_counterexample:
  "tied_keys True = MapObj [(Sym (Symbol 0 None), Num (Finite 1)), (Sym (Symbol 1 (Some [])), Num (Finite 2))]
   \<and> tied_keys False = MapObj [(Sym (Symbol 1 (Some [])), Num (Finite 2)), (Sym (Symbol 0 None), Num (Finite 1))]
   \<and> stableStringify tied_keys (Ref True) {} = Inr ''map:{sym::num:1,sym::num:2}''
   \<and> stableStringify tied_keys (Ref False) {} = Inr ''map:{sym::num:2,sym::num:1}''
   \<and> stableStringify prefix_keys (Ref True) {} = Inr ''map:{num:1:num:7,num:10:num:8}''
   \<and> spec_stringify_map prefix_keys [(Num (Finite 1), Num (Finite 7)), (Num (Finite 10), Num (Finite 8))]
       = Inr ''map:{num:10:num:8,num:1:num:7}''"
  by (simp add: stableStringify.simps(12) tied_keys_def prefix_keys_def description_or_empty_def
        spec_stringify_map_def spec_map_form_def int_to_string_def digits.simps digit_char_def)

text \<open>
  C2, at the failing input. Two plain objects hold the same two properties, keyed by two
  symbols of the same description, inserted in opposite orders: their serialized forms
  differ. The stable sort by description leaves symbols of equal description in
  insertion order.
\<close>

theorem object_symbol_keys_same_description:
  "same_description True =
     PlainObject [] [(Symbol 0 (Some ''x''), Num (Finite 1)), (Symbol 1 (Some ''x''), Num (Finite 2))]
   \<and> same_description False =
     PlainObject [] [(Symbol 1 (Some ''x''), Num (Finite 2)), (Symbol 0 (Some ''x''), Num (Finite 1))]
   \<and> stableStringify same_description (Ref True) {} = Inr ''{keysym:x=>num:1,keysym:x=>num:2}''
   \<and> stableStringify same_description (Ref False) {} = Inr ''{keysym:x=>num:2,keysym:x=>num:1}''"
  by (simp add: stableStringify.simps(12) same_description_def ownKeysSorted_def
        description_or_empty_def int_to_string_def digits.simps digit_char_def)

section \<open>The notification primitive: frame and invariant\<close>

lemma exec_calls [simp]: "calls (exec c s) = calls s"
  by (cases c) (simp_all add: subscribe_def unsubscribe_def notify_def Let_def)

lemma exec_notifyErrors [simp]: "notifyErrors (exec c s) = notifyErrors s"
  by (cases c) (simp_all add: subscribe_def unsubscribe_def notify_def Let_def)

lemma execs_calls [simp]: "calls (foldl (\<lambda>s c. exec c s) s cs) = calls s"
  by (induction cs arbitrary: s) simp_all

lemma execs_notifyErrors [simp]: "notifyErrors (foldl (\<lambda>s c. exec c s) s cs) = notifyErrors s"
  by (induction cs arbitrary: s) simp_all

lemma deliver_calls [simp]: "calls (deliver act payload s fn) = calls s @ [(fn, payload)]"
  by (simp add: deliver_def call_listener_def onNotifyError_def split: option.splits)

lemma deliver_notifyErrors [simp]:
  "notifyErrors (deliver act payload s fn) =
     notifyErrors s @ (case snd (act fn payload) of None \<Rightarrow> [] | Some err \<Rightarrow> [err])"
  by (simp add: deliver_def call_listener_def onNotifyError_def split: option.splits)

lemma delivers_calls:
  "calls (foldl (deliver act payload) s fns) = calls s @ map (\<lambda>fn. (fn, payload)) fns"
  by (induction fns arbitrary: s) simp_all

lemma delivers_notifyErrors:
  "notifyErrors (foldl (deliver act payload) s fns) =
     notifyErrors s @ List.map_filter (\<lambda>fn. snd (act fn payload)) fns"
  by (induction fns arbitrary: s) (simp_all add: List.map_filter_simps split: option.splits)

lemma flush_calls:
  "hasQueuedValue s \<Longrightarrow> calls (flush act s) = calls s @ map (\<lambda>fn. (fn, lastValue s)) (listeners s)"
  by (simp add: flush_def Let_def delivers_calls)

lemma flush_notifyErrors:
  "hasQueuedValue s \<Longrightarrow>
     notifyErrors (flush act s) =
       notifyErrors s @ List.map_filter (\<lambda>fn. snd (act fn (lastValue s))) (listeners s)"
  by (simp add: flush_def Let_def delivers_notifyErrors)




















section \<open>Properties of the notification primitive\<close>



text \<open>
  C5. A flush calls the listeners that are registered when it runs, in registration
  order, whatever the listeners do during the flush: a listener subscribed between the
  \<^verbatim>\<open>notify\<close> and the flush is called with the value, after the listeners registered
  before it; a listener unsubscribed in between is not called.
\<close>

theorem flush_calls_listeners_registered_at_flush_time:
  fixes act :: "'v behaviour"
  shows "(hasQueuedValue s \<longrightarrow>
            calls (flush act s) = calls s @ map (\<lambda>fn. (fn, lastValue s)) (listeners s))
       \<and> (let s2 = snd (subscribe fn (notify v s))
          in listeners s2 = (if fn \<in> set (listeners s) then listeners s else listeners s @ [fn])
           \<and> calls (flush act s2) = calls s @ map (\<lambda>fn. (fn, Some v)) (listeners s2))
       \<and> (c < length (subscriptions s) \<and> \<not> snd (subscriptions s ! c) \<longrightarrow>
            (let gone = fst (subscriptions s ! c); s3 = unsubscribe c (notify v s)
             in listeners s3 = removeAll gone (listeners s)
              \<and> calls (flush act s3) = calls s @ map (\<lambda>fn. (fn, Some v)) (removeAll gone (listeners s))))"
proof (intro conjI impI)
  assume "hasQueuedValue s"
  then show "calls (flush act s) = calls s @ map (\<lambda>fn. (fn, lastValue s)) (listeners s)"
    by (rule flush_calls)
next
  define s2 where "s2 = snd (subscribe fn (notify v s))"
  have q: "hasQueuedValue s2" "lastValue s2 = Some v" "calls s2 = calls s"
    and l: "listeners s2 = (if fn \<in> set (listeners s) then listeners s else listeners s @ [fn])"
    by (simp_all add: s2_def subscribe_def notify_def Let_def)
  from flush_calls [OF q(1), of act] q l
  show "let s2 = snd (subscribe fn (notify v s))
        in listeners s2 = (if fn \<in> set (listeners s) then listeners s else listeners s @ [fn])
         \<and> calls (flush act s2) = calls s @ map (\<lambda>fn. (fn, Some v)) (listeners s2)"
    unfolding Let_def s2_def [symmetric] by simp
next
  assume a: "c < length (subscriptions s) \<and> \<not> snd (subscriptions s ! c)"
  define gone where "gone = fst (subscriptions s ! c)"
  define s3 where "s3 = unsubscribe c (notify v s)"
  from a have q: "hasQueuedValue s3" "lastValue s3 = Some v" "calls s3 = calls s"
    and l: "listeners s3 = removeAll gone (listeners s)"
    by (simp_all add: s3_def gone_def unsubscribe_def notify_def Let_def)
  from flush_calls [OF q(1), of act] q l
  show "let gone = fst (subscriptions s ! c); s3 = unsubscribe c (notify v s)
        in listeners s3 = removeAll gone (listeners s)
         \<and> calls (flush act s3) = calls s @ map (\<lambda>fn. (fn, Some v)) (removeAll gone (listeners s))"
    unfolding Let_def s3_def [symmetric] gone_def [symmetric] by simp
qed

theorem flush_calls_listeners_registered_at_flush_time_witness:
  "hasQueuedValue (notify (5 :: nat) (snd (subscribe 11 new_subscribable)))
   \<and> calls (flush silent (notify 5 (snd (subscribe 11 new_subscribable)))) = [(11, Some 5)]
   \<and> calls (flush silent (snd (subscribe 12 (notify 5 (snd (subscribe 11 new_subscribable))))))
       = [(11, Some 5), (12, Some 5)]
   \<and> 0 < length (subscriptions (snd (subscribe 12 (snd (subscribe 11 (new_subscribable :: nat subscribable))))))
   \<and> \<not> snd (subscriptions (snd (subscribe 12 (snd (subscribe 11 (new_subscribable :: nat subscribable))))) ! 0)
   \<and> calls (flush silent (unsubscribe 0 (notify 5 (snd (subscribe 12 (snd (subscribe 11 new_subscribable)))))))
       = [(12, Some 5)]"
proof -
  from flush_calls_listeners_registered_at_flush_time
         [of "notify 5 (snd (subscribe 11 new_subscribable))" silent 12 5 0]
       flush_calls_listeners_registered_at_flush_time
         [of "snd (subscribe 11 new_subscribable)" silent 12 5 0]
       flush_calls_listeners_registered_at_flush_time
         [of "snd (subscribe 12 (snd (subscribe 11 new_subscribable)))" silent 12 5 0]
  show ?thesis
    by (simp add: Let_def subscribe_def unsubscribe_def notify_def new_subscribable_def)
qed

text \<open>
  C6. During a flush every listener of the snapshot is called, whether or not a listener
  before it threw: the exception of a listener is caught where the listener is called and
  handed to \<^verbatim>\<open>onNotifyError\<close>, once for each throw and in the order of the throws, and
  the flush itself completes normally.
\<close>

theorem listener_exceptions_do_not_stop_the_flush:
  fixes act :: "'v behaviour"
  assumes "hasQueuedValue s"
  shows "calls (flush act s) = calls s @ map (\<lambda>fn. (fn, lastValue s)) (listeners s)
       \<and> notifyErrors (flush act s) =
           notifyErrors s @ List.map_filter (\<lambda>fn. snd (act fn (lastValue s))) (listeners s)
       \<and> length (notifyErrors (flush act s)) =
           length (notifyErrors s) + length (filter (\<lambda>fn. snd (act fn (lastValue s)) \<noteq> None) (listeners s))"
  using flush_calls [OF assms, of act] flush_notifyErrors [OF assms, of act]
  by (simp add: List.map_filter_def)

theorem listener_exceptions_do_not_stop_the_flush_witness:
  "hasQueuedValue (notify (42 :: nat) (snd (subscribe 5 (snd (subscribe 4 new_subscribable)))))
   \<and> calls (flush thrower (notify 42 (snd (subscribe 5 (snd (subscribe 4 new_subscribable))))))
       = [(4, Some 42), (5, Some 42)]
   \<and> notifyErrors (flush thrower (notify 42 (snd (subscribe 5 (snd (subscribe 4 new_subscribable))))))
       = [''boom'']"
proof -
  have h: "hasQueuedValue (notify (42 :: nat) (snd (subscribe 5 (snd (subscribe 4 new_subscribable)))))"
    by (simp add: notify_def Let_def)
  from listener_exceptions_do_not_stop_the_flush [OF h, of thrower] h
  show ?thesis
    by (simp add: Let_def subscribe_def notify_def new_subscribable_def thrower_def
          List.map_filter_simps)
qed



end
